theory Spec2Isabelle
  imports Main "HOL-Library.Word"
begin

unbundle bit_operations_syntax

section \<open>Path utilities\<close>

text \<open>
  The program normalises every tar entry name with \<^verbatim>\<open>filepath.Clean\<close> and derives
  parent and base names with \<^verbatim>\<open>filepath.Dir\<close> and \<^verbatim>\<open>filepath.Base\<close> of Go's
  standard library. They are embedded here for the Unix separator: a Go string is a
  byte sequence, a \<^typ>\<open>string\<close> here.
\<close>

definition Separator :: char where
  "Separator = CHR ''/''"

text \<open>The elements of a path between separators, empty elements included.\<close>

fun elements :: "string \<Rightarrow> string list" where
  "elements [] = [[]]"
| "elements (c # cs) =
     (if c = Separator then [] # elements cs
      else (case elements cs of
              [] \<Rightarrow> [[c]]
            | e # es \<Rightarrow> (c # e) # es))"

fun joinPath :: "string list \<Rightarrow> string" where
  "joinPath [] = []"
| "joinPath [e] = e"
| "joinPath (e # es) = e @ Separator # joinPath es"

text \<open>
  The loop of \<^verbatim>\<open>Clean\<close> over the elements. \<open>out\<close> is the output buffer as a stack
  of elements, innermost first: an empty element and \<^verbatim>\<open>.\<close> are dropped; \<^verbatim>\<open>..\<close>
  removes the last real element when there is one, is dropped at the root of a rooted
  path and is kept otherwise; any other element is appended.
\<close>

fun cleanLoop :: "bool \<Rightarrow> string list \<Rightarrow> string list \<Rightarrow> string list" where
  "cleanLoop rooted out [] = out"
| "cleanLoop rooted out (e # es) =
     (if e = [] \<or> e = ''.'' then cleanLoop rooted out es
      else if e = ''..'' then
        (case out of
           [] \<Rightarrow> cleanLoop rooted (if rooted then [] else [''..'']) es
         | el # below \<Rightarrow>
             cleanLoop rooted (if el = ''..'' then ''..'' # out else below) es)
      else cleanLoop rooted (e # out) es)"

definition Clean :: "string \<Rightarrow> string" where
  "Clean path =
     (if path = [] then ''.''
      else
        (let rooted = (hd path = Separator);
             out = rev (cleanLoop rooted [] (elements path))
         in if rooted then Separator # joinPath out
            else if out = [] then ''.''
            else joinPath out))"

text \<open>\<^verbatim>\<open>Dir\<close>: everything up to the last separator, cleaned.\<close>

definition Dir :: "string \<Rightarrow> string" where
  "Dir path = Clean (rev (dropWhile (\<lambda>c. c \<noteq> Separator) (rev path)))"

text \<open>\<^verbatim>\<open>Base\<close>: the last element, after trailing separators are removed.\<close>

definition Base :: "string \<Rightarrow> string" where
  "Base path =
     (if path = [] then ''.''
      else
        (let stripped = rev (dropWhile (\<lambda>c. c = Separator) (rev path));
             lastElem = rev (takeWhile (\<lambda>c. c \<noteq> Separator) (rev stripped))
         in if lastElem = [] then [Separator] else lastElem))"

definition dirname :: "string \<Rightarrow> string" where
  "dirname name = Clean (Dir name)"

definition basename :: "string \<Rightarrow> string" where
  "basename name = Clean (Base name)"


section \<open>Errors, crashes and the entry stream\<close>

text \<open>
  A Go \<^verbatim>\<open>error\<close> value is an \<^typ>\<open>'e option\<close> here (\<open>None\<close> is \<^verbatim>\<open>nil\<close>).
  Whatever ends the process instead of returning is a \<open>crash\<close>: \<^verbatim>\<open>chkfatal\<close>
  printing its context and calling \<^verbatim>\<open>os.Exit(1)\<close>, a run-time panic of the
  message library, and the exhaustion of the goroutine stack.
\<close>

datatype error =
    ErrAlloc          \<comment> \<open>the message has no room for an allocation\<close>
  | ErrIO string      \<comment> \<open>reading the image failed\<close>

datatype crash =
    Exit string error       \<comment> \<open>\<^verbatim>\<open>chkfatal(context, err)\<close> with a non-nil error\<close>
  | PanicOutOfBounds        \<comment> \<open>list index out of bounds\<close>
  | PanicWhich              \<comment> \<open>access to a union member that is not the active one\<close>
  | PanicNilStruct          \<comment> \<open>a setter called on the zero struct\<close>
  | StackExhausted          \<comment> \<open>the recursion went deeper than the stack allows\<close>

type_synonym bytes = "8 word list"

text \<open>
  Modelled from the spec: the layer source (\<^verbatim>\<open>iterLayers\<close> is not among the sources).
  An image is an ordered sequence of layers, a layer an ordered sequence of entries; a
  traversal signals its end and reports the first error it met by a terminal query
  (\<^verbatim>\<open>Err()\<close>). An entry is a \<^verbatim>\<open>tar.Header\<close> (the fields the program reads) together
  with the outcome of reading its content to the end.
\<close>

record entry =
  Name :: string
  Typeflag :: char
  Mode :: "64 word"
  Linkname :: string
  content :: "error + bytes"

record layer =
  entries :: "entry list"
  tarErr :: "error option"

record image =
  layers :: "layer list"
  layerErr :: "error option"
  seekErr :: "error option"

definition TypeReg :: char where "TypeReg = CHR ''0''"
definition TypeSymlink :: char where "TypeSymlink = CHR ''2''"
definition TypeDir :: char where "TypeDir = CHR ''5''"

section \<open>Pass 1: the child count of every directory\<close>

text \<open>Reading a Go \<^verbatim>\<open>map[string]int\<close>: the zero value where the key is absent.\<close>

definition sizeAt :: "(string \<rightharpoonup> int) \<Rightarrow> string \<Rightarrow> int" where
  "sizeAt dirSizes k = (case dirSizes k of None \<Rightarrow> 0 | Some n \<Rightarrow> n)"

text \<open>
  The body of the inner loop of \<^verbatim>\<open>getDirSizes\<close>: the \<^verbatim>\<open>switch\<close> on the type flag,
  whose directory case falls through to the increment.
\<close>

definition countEntry :: "entry \<Rightarrow> (string \<rightharpoonup> int) \<Rightarrow> (string \<rightharpoonup> int)" where
  "countEntry hdr dirSizes =
     (let name = Clean (Name hdr);
          parentName = dirname name
      in if Typeflag hdr = TypeDir then
           (let dirSizes1 = dirSizes(name \<mapsto> sizeAt dirSizes name)
            in dirSizes1(parentName \<mapsto> sizeAt dirSizes1 parentName + 1))
         else if Typeflag hdr = TypeReg \<or> Typeflag hdr = TypeSymlink then
           dirSizes(parentName \<mapsto> sizeAt dirSizes parentName + 1)
         else dirSizes)"

fun countEntries :: "entry list \<Rightarrow> (string \<rightharpoonup> int) \<Rightarrow> (string \<rightharpoonup> int)" where
  "countEntries [] dirSizes = dirSizes"
| "countEntries (hdr # rest) dirSizes = countEntries rest (countEntry hdr dirSizes)"

fun countLayers :: "layer list \<Rightarrow> (string \<rightharpoonup> int) \<Rightarrow> crash + (string \<rightharpoonup> int)" where
  "countLayers [] dirSizes = Inr dirSizes"
| "countLayers (l # ls) dirSizes =
     (let dirSizes1 = countEntries (entries l) dirSizes
      in case tarErr l of
           Some e \<Rightarrow> Inl (Exit ''tar file'' e)
         | None \<Rightarrow> countLayers ls dirSizes1)"

definition getDirSizes :: "image \<Rightarrow> crash + (string \<rightharpoonup> int)" where
  "getDirSizes dockerImage =
     (case countLayers (layers dockerImage) Map.empty of
        Inl c \<Rightarrow> Inl c
      | Inr dirSizes \<Rightarrow>
          (case layerErr dockerImage of
             Some e \<Rightarrow> Inl (Exit ''layer'' e)
           | None \<Rightarrow> Inr dirSizes))"

definition supportedTypeFlag :: "entry \<Rightarrow> bool" where
  "supportedTypeFlag hdr =
     (Typeflag hdr = TypeDir \<or> Typeflag hdr = TypeReg \<or> Typeflag hdr = TypeSymlink)"


section \<open>The message under construction\<close>

text \<open>
  The archive is built inside a Cap'n Proto message through the generated accessors of
  \<^verbatim>\<open>spk.Archive_File\<close>. The message is embedded as a store of file structs: an
  \<^verbatim>\<open>Archive_File\<close> value is a reference into it (or the zero struct), a directory's
  list is a run of structs allocated together, whose length is fixed at allocation.
  Fresh memory is zeroed, which reads as a struct with an empty name and the first
  union member (\<^verbatim>\<open>regular\<close>) holding no data. The message has a bounded size
  (\<open>room\<close>, in words): a setter that has to allocate beyond it returns an error and
  leaves the pointer it was to set as it was. The accessors behave as the library's:
  \<^verbatim>\<open>At\<close> panics on an index outside the list, \<^verbatim>\<open>Directory\<close> panics when the
  active union member is another one, a setter panics on the zero struct.
\<close>

datatype handle = Null | Ref nat

datatype variant =
    Regular bytes
  | Executable bytes
  | Symlink string
  | Directory "nat list"

record archiveFile =
  fileName :: string
  which :: variant

definition blank :: archiveFile where
  "blank = \<lparr>fileName = [], which = Regular []\<rparr>"

record state =
  dirSizes :: "string \<rightharpoonup> int"
  allFiles :: "string \<rightharpoonup> handle"
  cells :: "nat \<Rightarrow> archiveFile"
  brk :: nat
  room :: nat
  stderr :: "string list"

definition wordsFor :: "nat \<Rightarrow> nat" where
  "wordsFor n = (n + 7) div 8"

definition textWords :: "string \<Rightarrow> nat" where
  "textWords v = (if v = [] then 0 else wordsFor (length v + 1))"

definition listWords :: "nat \<Rightarrow> nat" where
  "listWords n = 1 + 4 * n"

definition alloc :: "nat \<Rightarrow> state \<Rightarrow> state option" where
  "alloc w st = (if w \<le> room st then Some (st\<lparr>room := room st - w\<rparr>) else None)"

definition setWhich :: "nat \<Rightarrow> variant \<Rightarrow> state \<Rightarrow> state" where
  "setWhich a v st = st\<lparr>cells := (cells st)(a := (cells st a)\<lparr>which := v\<rparr>)\<rparr>"

definition SetName :: "handle \<Rightarrow> string \<Rightarrow> state \<Rightarrow> crash + (error option \<times> state)" where
  "SetName h v st =
     (case h of
        Null \<Rightarrow> Inl PanicNilStruct
      | Ref a \<Rightarrow>
          (case alloc (textWords v) st of
             None \<Rightarrow> Inr (Some ErrAlloc, st)
           | Some st1 \<Rightarrow>
               Inr (None, st1\<lparr>cells := (cells st1)(a := (cells st1 a)\<lparr>fileName := v\<rparr>)\<rparr>)))"

definition SetSymlink :: "handle \<Rightarrow> string \<Rightarrow> state \<Rightarrow> crash + (error option \<times> state)" where
  "SetSymlink h v st =
     (case h of
        Null \<Rightarrow> Inl PanicNilStruct
      | Ref a \<Rightarrow>
          (let st1 = setWhich a (Symlink []) st
           in case alloc (textWords v) st1 of
                None \<Rightarrow> Inr (Some ErrAlloc, st1)
              | Some st2 \<Rightarrow> Inr (None, setWhich a (Symlink v) st2)))"

definition SetRegular :: "handle \<Rightarrow> bytes \<Rightarrow> state \<Rightarrow> crash + (error option \<times> state)" where
  "SetRegular h v st =
     (case h of
        Null \<Rightarrow> Inl PanicNilStruct
      | Ref a \<Rightarrow>
          (let st1 = setWhich a (Regular []) st
           in case alloc (wordsFor (length v)) st1 of
                None \<Rightarrow> Inr (Some ErrAlloc, st1)
              | Some st2 \<Rightarrow> Inr (None, setWhich a (Regular v) st2)))"

definition SetExecutable :: "handle \<Rightarrow> bytes \<Rightarrow> state \<Rightarrow> crash + (error option \<times> state)" where
  "SetExecutable h v st =
     (case h of
        Null \<Rightarrow> Inl PanicNilStruct
      | Ref a \<Rightarrow>
          (let st1 = setWhich a (Executable []) st
           in case alloc (wordsFor (length v)) st1 of
                None \<Rightarrow> Inr (Some ErrAlloc, st1)
              | Some st2 \<Rightarrow> Inr (None, setWhich a (Executable v) st2)))"

text \<open>
  \<^verbatim>\<open>NewDirectory(n)\<close> makes the struct a directory and allocates its list of \<open>n\<close>
  structs; the list it returns is the run of their addresses.
\<close>

definition NewDirectory ::
  "handle \<Rightarrow> int \<Rightarrow> state \<Rightarrow> crash + ((nat list \<times> error option) \<times> state)" where
  "NewDirectory h n st =
     (case h of
        Null \<Rightarrow> Inl PanicNilStruct
      | Ref a \<Rightarrow>
          (let st1 = setWhich a (Directory []) st
           in if n < 0 then Inr (([], Some ErrAlloc), st1)
              else
                (case alloc (listWords (nat n)) st1 of
                   None \<Rightarrow> Inr (([], Some ErrAlloc), st1)
                 | Some st2 \<Rightarrow>
                     (let l = [brk st2 ..< brk st2 + nat n]
                      in Inr ((l, None),
                              (setWhich a (Directory l) st2)\<lparr>brk := brk st2 + nat n\<rparr>)))))"

definition Directory_of :: "handle \<Rightarrow> state \<Rightarrow> crash + (nat list \<times> error option)" where
  "Directory_of h st =
     (case h of
        Null \<Rightarrow> Inl PanicWhich
      | Ref a \<Rightarrow>
          (case which (cells st a) of
             Directory l \<Rightarrow> Inr (l, None)
           | _ \<Rightarrow> Inl PanicWhich))"

definition At :: "nat list \<Rightarrow> int \<Rightarrow> crash + handle" where
  "At l i = (if 0 \<le> i \<and> i < int (length l) then Inr (Ref (l ! nat i)) else Inl PanicOutOfBounds)"

text \<open>\<^verbatim>\<open>spk.NewArchive_File(seg)\<close>: a struct of its own, outside every list.\<close>

definition NewArchive_File :: "state \<Rightarrow> (handle \<times> error option) \<times> state" where
  "NewArchive_File st =
     (case alloc 4 st of
        None \<Rightarrow> ((Null, Some ErrAlloc), st)
      | Some st1 \<Rightarrow> ((Ref (brk st1), None), st1\<lparr>brk := brk st1 + 1\<rparr>))"

text \<open>
  \<^verbatim>\<open>spk.NewArchive(seg)\<close>: the archive struct holds one pointer, to the list of its
  files. The archive value is represented by that list, empty until \<^verbatim>\<open>SetFiles\<close>.
\<close>

definition NewArchive :: "state \<Rightarrow> (nat list \<times> error option) \<times> state" where
  "NewArchive st =
     (case alloc 1 st of
        None \<Rightarrow> (([], Some ErrAlloc), st)
      | Some st1 \<Rightarrow> (([], None), st1))"

text \<open>The conversion of a Go \<^verbatim>\<open>int\<close> to \<^verbatim>\<open>int32\<close> keeps the low 32 bits.\<close>

definition int32 :: "int \<Rightarrow> int" where
  "int32 n = (n + 2147483648) mod 4294967296 - 2147483648"


section \<open>Pass 2: building the tree\<close>

text \<open>
  The closures \<^verbatim>\<open>nextChild\<close> and \<^verbatim>\<open>getParent\<close> of \<^verbatim>\<open>buildArchive\<close> call each
  other; the maps and the message they share are the state. The first argument bounds
  the depth of the calls: where the source would recurse without end, Go stops the
  program when the stack is exhausted. A Go \<^verbatim>\<open>int\<close> is an \<^typ>\<open>int\<close> here: a count
  is bounded by the number of entries of the image.

  \<^verbatim>\<open>nextChild\<close> overwrites the error of \<^verbatim>\<open>getParent\<close> with the one of
  \<^verbatim>\<open>Directory()\<close> before looking at it: \<open>afterGetParent\<close> is the rest of its body,
  which does not receive that error.
\<close>

definition afterGetParent ::
  "string \<Rightarrow> handle \<Rightarrow> state \<Rightarrow> crash + ((handle \<times> error option) \<times> state)" where
  "afterGetParent name parent st =
     (case Directory_of parent st of
        Inl c \<Rightarrow> Inl c
      | Inr (dir, err) \<Rightarrow>
          if err \<noteq> None then Inr ((Null, err), st)
          else
            (let parentName = dirname name
             in case At dir (int (length dir) - sizeAt (dirSizes st) parentName) of
                  Inl c \<Rightarrow> Inl c
                | Inr child \<Rightarrow>
                    (case SetName child (basename name) st of
                       Inl c \<Rightarrow> Inl c
                     | Inr (err1, st1) \<Rightarrow>
                         Inr ((child, err1),
                              st1\<lparr>dirSizes := (dirSizes st1)
                                    (parentName \<mapsto> sizeAt (dirSizes st1) parentName - 1)\<rparr>))))"

fun nextChild :: "nat \<Rightarrow> string \<Rightarrow> state \<Rightarrow> crash + ((handle \<times> error option) \<times> state)"
  and getParent :: "nat \<Rightarrow> string \<Rightarrow> state \<Rightarrow> crash + ((handle \<times> error option) \<times> state)"
where
  "nextChild 0 name st = Inl StackExhausted"
| "nextChild (Suc depth) name st =
     (case getParent depth name st of
        Inl c \<Rightarrow> Inl c
      | Inr ((parent, err), st1) \<Rightarrow> afterGetParent name parent st1)"
| "getParent 0 name st = Inl StackExhausted"
| "getParent (Suc depth) name st =
     (let parentName = dirname name
      in case allFiles st parentName of
           Some ret \<Rightarrow> Inr ((ret, None), st)
         | None \<Rightarrow>
             (case nextChild depth parentName st of
                Inl c \<Rightarrow> Inl c
              | Inr ((ret, err), st1) \<Rightarrow>
                  if err \<noteq> None then Inr ((ret, err), st1)
                  else
                    (case NewDirectory ret (int32 (sizeAt (dirSizes st1) parentName)) st1 of
                       Inl c \<Rightarrow> Inl c
                     | Inr ((l, err1), st2) \<Rightarrow>
                         if err1 \<noteq> None then Inr ((ret, err1), st2)
                         else Inr ((ret, None),
                                   st2\<lparr>allFiles := (allFiles st2)(parentName \<mapsto> ret)\<rparr>))))"

text \<open>
  \<^verbatim>\<open>hdr.FileInfo().Mode().Perm()\<close>: the permission bits are the nine low bits of the
  header's mode; \<^verbatim>\<open>0111\<close> is octal.
\<close>

definition Perm :: "64 word \<Rightarrow> 64 word" where
  "Perm m = m AND 511"

definition execBits :: "64 word" where
  "execBits = 73"

text \<open>
  The body of the inner loop of \<^verbatim>\<open>buildArchive\<close>, for one entry: the error it
  returns with (\<open>None\<close> when the loop goes on) and the state. In the branch of a
  regular file \<^verbatim>\<open>bytes, err := ...\<close> declares a new \<^verbatim>\<open>err\<close>: the error of
  \<^verbatim>\<open>SetRegular\<close> and \<^verbatim>\<open>SetExecutable\<close> goes to that variable, and the check after
  the \<^verbatim>\<open>switch\<close> reads the one of \<^verbatim>\<open>nextChild\<close>, which is nil there.
\<close>

definition buildEntry :: "nat \<Rightarrow> entry \<Rightarrow> state \<Rightarrow> crash + (error option \<times> state)" where
  "buildEntry depth hdr st =
     (if \<not> supportedTypeFlag hdr then Inr (None, st)
      else
        (let name = Clean (Name hdr)
         in case allFiles st name of
              Some this \<Rightarrow> Inr (None, st)
            | None \<Rightarrow>
                (case nextChild depth name st of
                   Inl c \<Rightarrow> Inl c
                 | Inr ((this, err), st1) \<Rightarrow>
                     if err \<noteq> None then Inr (err, st1)
                     else
                       (let st2 = st1\<lparr>allFiles := (allFiles st1)(name \<mapsto> this)\<rparr>
                        in if Typeflag hdr = TypeDir then
                             (case NewDirectory this (int32 (sizeAt (dirSizes st2) name)) st2 of
                                Inl c \<Rightarrow> Inl c
                              | Inr ((l, err1), st3) \<Rightarrow> Inr (err1, st3))
                           else if Typeflag hdr = TypeSymlink then
                             SetSymlink this (Linkname hdr) st2
                           else if Typeflag hdr = TypeReg then
                             (case content hdr of
                                Inl e \<Rightarrow> Inr (Some e, st2)
                              | Inr bytes \<Rightarrow>
                                  (case (if Perm (Mode hdr) AND execBits = 0
                                         then SetRegular this bytes st2
                                         else SetExecutable this bytes st2) of
                                     Inl c \<Rightarrow> Inl c
                                   | Inr (err2, st3) \<Rightarrow> Inr (err, st3)))
                           else Inr (err, st2)))))"

fun buildEntries :: "nat \<Rightarrow> entry list \<Rightarrow> state \<Rightarrow> crash + (error option \<times> state)" where
  "buildEntries depth [] st = Inr (None, st)"
| "buildEntries depth (hdr # rest) st =
     (case buildEntry depth hdr st of
        Inl c \<Rightarrow> Inl c
      | Inr (err, st1) \<Rightarrow>
          if err \<noteq> None then Inr (err, st1) else buildEntries depth rest st1)"

text \<open>The outer loop: in this pass the error of a layer's traversal is not looked at.\<close>

fun buildLayers :: "nat \<Rightarrow> layer list \<Rightarrow> state \<Rightarrow> crash + (error option \<times> state)" where
  "buildLayers depth [] st = Inr (None, st)"
| "buildLayers depth (l # ls) st =
     (case buildEntries depth (entries l) st of
        Inl c \<Rightarrow> Inl c
      | Inr (err, st1) \<Rightarrow>
          if err \<noteq> None then Inr (err, st1) else buildLayers depth ls st1)"

definition manifestName :: string where
  "manifestName = ''sandstorm-manifest''"

definition manifestWarning :: string where
  "manifestWarning =
     ''Warning: this Docker image does not contain a sandstorm-manifest. '' @
     ''The resulting sandstorm package will not function without this!''"

text \<open>
  The end of \<^verbatim>\<open>buildArchive\<close>, after the loops, with the outcome \<open>ok\<close> of the lookup
  of the manifest as an argument: the warning on the standard error, then
  \<^verbatim>\<open>ret.SetFiles(rootFiles)\<close>, which stores a pointer and allocates nothing.
\<close>

definition finish :: "bool \<Rightarrow> nat list \<Rightarrow> state \<Rightarrow> (nat list \<times> error option) \<times> state" where
  "finish ok rootFiles st =
     (let st1 = (if \<not> ok then st\<lparr>stderr := stderr st @ [manifestWarning]\<rparr> else st)
      in ((rootFiles, None), st1))"

definition manifestPresent :: "state \<Rightarrow> bool" where
  "manifestPresent st = (allFiles st manifestName \<noteq> None)"

text \<open>
  \<^verbatim>\<open>buildArchive\<close>: the archive it returns (the list of its files), the error it
  returns, and the message. \<open>depth\<close> is the depth the stack allows, \<open>space\<close> the
  number of words the message can hold.
\<close>

definition initial :: "(string \<rightharpoonup> int) \<Rightarrow> nat \<Rightarrow> state" where
  "initial sizes space =
     \<lparr>dirSizes = sizes, allFiles = Map.empty, cells = (\<lambda>a. blank), brk = 0,
      room = space, stderr = []\<rparr>"

definition buildArchive ::
  "nat \<Rightarrow> nat \<Rightarrow> image \<Rightarrow> crash + ((nat list \<times> error option) \<times> state)" where
  "buildArchive depth space dockerImage =
     (case getDirSizes dockerImage of
        Inl c \<Rightarrow> Inl c
      | Inr sizes \<Rightarrow>
          (case NewArchive (initial sizes space) of
             ((ret, err), st1) \<Rightarrow>
               if err \<noteq> None then Inr ((ret, err), st1)
               else if seekErr dockerImage \<noteq> None then Inr ((ret, seekErr dockerImage), st1)
               else
                 (case NewArchive_File st1 of
                    ((root, err1), st2) \<Rightarrow>
                      if err1 \<noteq> None then Inr ((ret, err1), st2)
                      else
                        (case NewDirectory root (int32 (sizeAt (dirSizes st2) ''.'')) st2 of
                           Inl c \<Rightarrow> Inl c
                         | Inr ((rootFiles, err2), st3) \<Rightarrow>
                             if err2 \<noteq> None then Inr ((ret, err2), st3)
                             else
                               (case buildLayers depth (layers dockerImage)
                                       (st3\<lparr>allFiles := (allFiles st3)(''.'' \<mapsto> root)\<rparr>) of
                                  Inl c \<Rightarrow> Inl c
                                | Inr (err3, st4) \<Rightarrow>
                                    if err3 \<noteq> None then Inr ((ret, err3), st4)
                                    else Inr (finish (manifestPresent st4) rootFiles st4))))))"


section \<open>Observing the result\<close>

text \<open>The structs of a list that carry a name: the slots a child was assigned to.\<close>

definition occupied :: "(nat \<Rightarrow> archiveFile) \<Rightarrow> nat list \<Rightarrow> nat" where
  "occupied cs l = length (filter (\<lambda>a. fileName (cs a) \<noteq> []) l)"

text \<open>The first struct of a list with a given name, and the struct at a path of names.\<close>

fun childNamed :: "(nat \<Rightarrow> archiveFile) \<Rightarrow> nat list \<Rightarrow> string \<Rightarrow> nat option" where
  "childNamed cs [] n = None"
| "childNamed cs (a # l) n = (if fileName (cs a) = n then Some a else childNamed cs l n)"

fun fileAt :: "(nat \<Rightarrow> archiveFile) \<Rightarrow> nat list \<Rightarrow> string list \<Rightarrow> archiveFile option" where
  "fileAt cs l [] = None"
| "fileAt cs l [n] = map_option cs (childNamed cs l n)"
| "fileAt cs l (n # ns) =
     (case childNamed cs l n of
        None \<Rightarrow> None
      | Some a \<Rightarrow>
          (case which (cs a) of
             Directory l1 \<Rightarrow> fileAt cs l1 ns
           | _ \<Rightarrow> None))"

text \<open>Images for the examples: entries whose content reads without error, layers and
  image whose traversal reports no error.\<close>

definition tarEntry :: "string \<Rightarrow> char \<Rightarrow> 64 word \<Rightarrow> string \<Rightarrow> bytes \<Rightarrow> entry" where
  "tarEntry n t m target b =
     \<lparr>Name = n, Typeflag = t, Mode = m, Linkname = target, content = Inr b\<rparr>"

definition imageOf :: "entry list list \<Rightarrow> image" where
  "imageOf ls =
     \<lparr>layers = map (\<lambda>es. \<lparr>entries = es, tarErr = None\<rparr>) ls, layerErr = None, seekErr = None\<rparr>"

text \<open>The entries of an image in the order the two passes meet them.\<close>

definition stream :: "image \<Rightarrow> entry list" where
  "stream dockerImage = concat (map entries (layers dockerImage))"

definition supportedOnly :: "image \<Rightarrow> image" where
  "supportedOnly dockerImage =
     dockerImage\<lparr>layers :=
       map (\<lambda>l. l\<lparr>entries := filter supportedTypeFlag (entries l)\<rparr>) (layers dockerImage)\<rparr>"

section \<open>The specification's classifier and reference tally\<close>

text \<open>
  These two definitions follow the words of the specification, not the code: the entry
  classifier of its component design, and the tally its child-count accountant is
  described by. The counts of the tally are natural numbers.
\<close>

datatype kind = KDirectory | KRegularFile | KExecutableFile | KSymbolicLink | KUnsupported

definition spec_classify :: "entry \<Rightarrow> kind" where
  "spec_classify e =
     (if Typeflag e = TypeDir then KDirectory
      else if Typeflag e = TypeReg then
        (if Perm (Mode e) AND execBits = 0 then KRegularFile else KExecutableFile)
      else if Typeflag e = TypeSymlink then KSymbolicLink
      else KUnsupported)"

definition spec_tallyStep :: "(string \<rightharpoonup> nat) \<Rightarrow> entry \<Rightarrow> (string \<rightharpoonup> nat)" where
  "spec_tallyStep m e =
     (let P = Clean (Name e);
          Pa = dirname P;
          m1 = (if spec_classify e = KDirectory \<and> m P = None then m(P \<mapsto> 0) else m)
      in m1(Pa \<mapsto> (case m1 Pa of None \<Rightarrow> 1 | Some n \<Rightarrow> Suc n)))"

definition spec_tally :: "entry list \<Rightarrow> (string \<rightharpoonup> nat)" where
  "spec_tally es =
     foldl spec_tallyStep Map.empty (filter (\<lambda>e. spec_classify e \<noteq> KUnsupported) es)"

definition asInts :: "(string \<rightharpoonup> nat) \<Rightarrow> (string \<rightharpoonup> int)" where
  "asInts t = (\<lambda>k. map_option int (t k))"

text \<open>
  The entries that remain when every supported entry whose normalized path a supported
  entry before it already had is removed; \<open>seen\<close> lists the paths met so far.
\<close>

fun firstWriters :: "string list \<Rightarrow> entry list \<Rightarrow> entry list" where
  "firstWriters seen [] = []"
| "firstWriters seen (hdr # rest) =
     (if supportedTypeFlag hdr then
        (if Clean (Name hdr) \<in> set seen then firstWriters seen rest
         else hdr # firstWriters (Clean (Name hdr) # seen) rest)
      else hdr # firstWriters seen rest)"

section \<open>The invariant of pass 2\<close>

text \<open>
  What holds of the state between two steps of pass 2: memory beyond the allocation
  mark is fresh; the name index holds no zero struct, and the structs it holds are
  allocated, are not fresh and belong to one path each; the list of a directory in
  the name index is a run of consecutive structs below the mark; the lists of two such
  directories share no struct; and the slots of such a directory from the index
  \<open>length - remaining count\<close> on are fresh.
\<close>

definition consistent :: "state \<Rightarrow> bool" where
  "consistent st \<longleftrightarrow>
     (\<forall>a. brk st \<le> a \<longrightarrow> cells st a = blank) \<and>
     (\<forall>p. allFiles st p \<noteq> Some Null) \<and>
     (\<forall>p a. allFiles st p = Some (Ref a) \<longrightarrow> a < brk st) \<and>
     (\<forall>p a. allFiles st p = Some (Ref a) \<longrightarrow> cells st a \<noteq> blank) \<and>
     (\<forall>p q h. allFiles st p = Some h \<and> allFiles st q = Some h \<longrightarrow> p = q) \<and>
     (\<forall>p a l. allFiles st p = Some (Ref a) \<and> which (cells st a) = Directory l \<longrightarrow>
        (\<exists>b n. l = [b ..< b + n] \<and> b + n \<le> brk st)) \<and>
     (\<forall>p q a c l m. allFiles st p = Some (Ref a) \<and> allFiles st q = Some (Ref c) \<and> a \<noteq> c \<and>
        which (cells st a) = Directory l \<and> which (cells st c) = Directory m \<longrightarrow>
        set l \<inter> set m = {}) \<and>
     (\<forall>p a l i. allFiles st p = Some (Ref a) \<and> which (cells st a) = Directory l \<and>
        int (length l) - sizeAt (dirSizes st) p \<le> int i \<and> i < length l \<longrightarrow>
        cells st (l ! i) = blank)"

text \<open>The structs the name index of the first state holds are the same in the second.\<close>

definition untouched :: "state \<Rightarrow> state \<Rightarrow> bool" where
  "untouched st st1 \<longleftrightarrow> (\<forall>q x. allFiles st q = Some (Ref x) \<longrightarrow> cells st1 x = cells st x)"

text \<open>
  What pass 2 stores for an entry: the base of its path as the name, and the union
  member its type flag and permission bits select. The bytes of a file are its
  content, or none when the message had no room for them.
\<close>

definition storedAs :: "entry \<Rightarrow> archiveFile \<Rightarrow> bool" where
  "storedAs hdr f \<longleftrightarrow>
     fileName f = basename (Clean (Name hdr)) \<and>
     (case which f of
        Directory l \<Rightarrow> Typeflag hdr = TypeDir
      | Symlink t \<Rightarrow> Typeflag hdr = TypeSymlink \<and> t = Linkname hdr
      | Regular b \<Rightarrow>
          Typeflag hdr = TypeReg \<and> Perm (Mode hdr) AND execBits = 0 \<and>
          (content hdr = Inr b \<or> b = [])
      | Executable b \<Rightarrow>
          Typeflag hdr = TypeReg \<and> Perm (Mode hdr) AND execBits \<noteq> 0 \<and>
          (content hdr = Inr b \<or> b = []))"

text \<open>
  The paths the recursion can put into the name index for a path: the path and its
  parents, as far as the depth allows; and for all the supported entries of a list.
\<close>

fun ancestry :: "nat \<Rightarrow> string \<Rightarrow> string list" where
  "ancestry 0 name = [name]"
| "ancestry (Suc depth) name = name # ancestry depth (dirname name)"

definition reach :: "nat \<Rightarrow> entry list \<Rightarrow> string list" where
  "reach depth es =
     concat (map (\<lambda>e. ancestry depth (Clean (Name e))) (filter supportedTypeFlag es))"

text \<open>The file struct the name index holds for a path.\<close>

definition nodeOf :: "state \<Rightarrow> string \<Rightarrow> archiveFile option" where
  "nodeOf st p = (case allFiles st p of Some (Ref x) \<Rightarrow> Some (cells st x) | _ \<Rightarrow> None)"

text \<open>
  A state in which the loop of pass 2 can start: the root directory with a list of
  \<open>n\<close> structs is all the name index holds.
\<close>

definition rootOnly :: "(string \<rightharpoonup> int) \<Rightarrow> nat \<Rightarrow> nat \<Rightarrow> state" where
  "rootOnly sizes n space =
     \<lparr>dirSizes = sizes, allFiles = [''.'' \<mapsto> Ref 0],
      cells = (\<lambda>a. blank)(0 := \<lparr>fileName = [], which = Directory [1 ..< 1 + n]\<rparr>),
      brk = 1 + n, room = space, stderr = []\<rparr>"

text \<open>
  The struct at a path in the tree that \<^verbatim>\<open>buildArchive\<close> returns, \<open>files\<close> being the
  files of the archive: a struct of \<open>files\<close> when the parent of the path is the root,
  and otherwise a struct of the list of a directory that is at the parent of the path;
  the name of the struct is the base of the path.
\<close>

inductive placed :: "(nat \<Rightarrow> archiveFile) \<Rightarrow> nat list \<Rightarrow> string \<Rightarrow> nat \<Rightarrow> bool"
  for cs :: "nat \<Rightarrow> archiveFile" and files :: "nat list"
where
  top: "dirname p = ''.'' \<Longrightarrow> x \<in> set files \<Longrightarrow> fileName (cs x) = basename p \<Longrightarrow>
          placed cs files p x"
| sub: "placed cs files (dirname p) a \<Longrightarrow> which (cs a) = Directory l \<Longrightarrow> x \<in> set l \<Longrightarrow>
          fileName (cs x) = basename p \<Longrightarrow> placed cs files p x"

code_pred placed .

text \<open>
  The first of the parents of a path that the name index holds is the \<open>j\<close>-th one.
\<close>

definition firstKnown :: "state \<Rightarrow> string \<Rightarrow> nat \<Rightarrow> bool" where
  "firstKnown st q j \<longleftrightarrow>
     1 \<le> j \<and> allFiles st ((dirname ^^ j) q) \<noteq> None \<and>
     (\<forall>i. 1 \<le> i \<and> i < j \<longrightarrow> allFiles st ((dirname ^^ i) q) = None)"

text \<open>
  How the name index and the tree fit together between two steps of pass 2: the root is
  in the name index as the directory whose list is \<open>files\<close>; the struct of every other
  path has the base of the path as its name and is in the list of the directory that
  the name index holds for the parent of the path; and the list of a directory lies
  above the directory's struct.
\<close>

definition linked :: "nat list \<Rightarrow> state \<Rightarrow> bool" where
  "linked files st \<longleftrightarrow>
     (\<exists>r. allFiles st ''.'' = Some (Ref r) \<and> which (cells st r) = Directory files) \<and>
     (\<forall>p x. allFiles st p = Some (Ref x) \<and> p \<noteq> ''.'' \<longrightarrow>
        fileName (cells st x) = basename p \<and>
        (\<exists>a l. allFiles st (dirname p) = Some (Ref a) \<and> which (cells st a) = Directory l \<and>
               x \<in> set l)) \<and>
     (\<forall>p a l x. allFiles st p = Some (Ref a) \<and> which (cells st a) = Directory l \<and> x \<in> set l \<longrightarrow>
        a < x)"

section \<open>What the accessors leave unchanged\<close>

lemma alloc_frame:
  "alloc w st = Some st1 \<Longrightarrow>
     allFiles st1 = allFiles st \<and> dirSizes st1 = dirSizes st \<and> cells st1 = cells st \<and>
     brk st1 = brk st \<and> stderr st1 = stderr st"
  by (auto simp: alloc_def split: if_splits)

lemma setWhich_frame:
  "allFiles (setWhich a v st) = allFiles st" "dirSizes (setWhich a v st) = dirSizes st"
  "brk (setWhich a v st) = brk st" "room (setWhich a v st) = room st"
  "stderr (setWhich a v st) = stderr st"
  by (simp_all add: setWhich_def)

lemma SetName_frame:
  "SetName h v st = Inr (e, st1) \<Longrightarrow>
     allFiles st1 = allFiles st \<and> dirSizes st1 = dirSizes st \<and> brk st1 = brk st \<and>
     stderr st1 = stderr st"
  by (auto simp: SetName_def split: handle.splits option.splits dest: alloc_frame)

lemma NewDirectory_frame:
  "NewDirectory h n st = Inr (r, st1) \<Longrightarrow>
     allFiles st1 = allFiles st \<and> dirSizes st1 = dirSizes st \<and> stderr st1 = stderr st"
  by (auto simp: NewDirectory_def Let_def setWhich_frame
      split: handle.splits option.splits if_splits dest: alloc_frame)

lemma afterGetParent_allFiles:
  "afterGetParent name parent st = Inr (r, st1) \<Longrightarrow> allFiles st1 = allFiles st"
  by (auto simp: afterGetParent_def Let_def split: sum.splits if_splits prod.splits
      dest: SetName_frame)

text \<open>The name index only grows along the mutual recursion.\<close>

lemma walk_allFiles:
  "(nextChild depth name st = Inr (r, st1) \<longrightarrow> allFiles st \<subseteq>\<^sub>m allFiles st1) \<and>
   (getParent depth name st = Inr (r, st1) \<longrightarrow> allFiles st \<subseteq>\<^sub>m allFiles st1)"
proof (induction depth arbitrary: name st r st1)
  case 0
  show ?case by simp
next
  case (Suc depth)
  have n: "allFiles st \<subseteq>\<^sub>m allFiles st1" if "nextChild (Suc depth) name st = Inr (r, st1)"
  proof -
    from that obtain parent err st0 where
      g: "getParent depth name st = Inr ((parent, err), st0)" and
      a: "afterGetParent name parent st0 = Inr (r, st1)"
      by (auto split: sum.splits)
    from g Suc.IH have "allFiles st \<subseteq>\<^sub>m allFiles st0" by blast
    with afterGetParent_allFiles[OF a] show ?thesis by simp
  qed
  have g: "allFiles st \<subseteq>\<^sub>m allFiles st1" if "getParent (Suc depth) name st = Inr (r, st1)"
  proof (cases "allFiles st (dirname name)")
    case (Some ret)
    with that show ?thesis by (simp add: Let_def)
  next
    case None
    with that obtain ret err st0 where
      c: "nextChild depth (dirname name) st = Inr ((ret, err), st0)"
      by (auto simp: Let_def split: sum.splits)
    from c Suc.IH have m: "allFiles st \<subseteq>\<^sub>m allFiles st0" by blast
    show ?thesis
    proof (cases "err = None")
      case False
      with that None c have "st1 = st0" by (auto simp: Let_def)
      with m show ?thesis by simp
    next
      case True
      with that None c obtain l err1 st2 where
        d: "NewDirectory ret (int32 (sizeAt (dirSizes st0) (dirname name))) st0
              = Inr ((l, err1), st2)"
        and s: "st1 = st2 \<or> st1 = st2\<lparr>allFiles := (allFiles st2)(dirname name \<mapsto> ret)\<rparr>"
        by (auto simp: Let_def split: sum.splits if_splits)
      from NewDirectory_frame[OF d] have f: "allFiles st2 = allFiles st0" by simp
      from m None have "dirname name \<notin> dom (allFiles st)" by auto
      with m f have "allFiles st \<subseteq>\<^sub>m (allFiles st2)(dirname name \<mapsto> ret)"
        by (auto simp: map_le_def)
      with s m f show ?thesis by auto
    qed
  qed
  from n g show ?case by blast
qed

lemma setter_frames:
  "SetSymlink h t st = Inr (e, st1) \<Longrightarrow>
     allFiles st1 = allFiles st \<and> dirSizes st1 = dirSizes st \<and> brk st1 = brk st \<and>
     stderr st1 = stderr st"
  "SetRegular h v st = Inr (e, st1) \<Longrightarrow>
     allFiles st1 = allFiles st \<and> dirSizes st1 = dirSizes st \<and> brk st1 = brk st \<and>
     stderr st1 = stderr st"
  "SetExecutable h v st = Inr (e, st1) \<Longrightarrow>
     allFiles st1 = allFiles st \<and> dirSizes st1 = dirSizes st \<and> brk st1 = brk st \<and>
     stderr st1 = stderr st"
  by (auto simp: SetSymlink_def SetRegular_def SetExecutable_def Let_def setWhich_frame
      split: handle.splits option.splits dest!: alloc_frame)

lemma afterGetParent_stderr:
  "afterGetParent name parent st = Inr (r, st1) \<Longrightarrow> stderr st1 = stderr st"
  by (auto simp: afterGetParent_def Let_def split: sum.splits if_splits prod.splits
      dest: SetName_frame)

lemma walk_stderr:
  "(nextChild depth name st = Inr (r, st1) \<longrightarrow> stderr st1 = stderr st) \<and>
   (getParent depth name st = Inr (r, st1) \<longrightarrow> stderr st1 = stderr st)"
proof (induction depth arbitrary: name st r st1)
  case 0
  show ?case by simp
next
  case (Suc depth)
  have n: "stderr st1 = stderr st" if "nextChild (Suc depth) name st = Inr (r, st1)"
  proof -
    from that obtain parent err st0 where
      g: "getParent depth name st = Inr ((parent, err), st0)" and
      a: "afterGetParent name parent st0 = Inr (r, st1)"
      by (auto split: sum.splits)
    from g Suc.IH have "stderr st0 = stderr st" by blast
    with afterGetParent_stderr[OF a] show ?thesis by simp
  qed
  have g: "stderr st1 = stderr st" if "getParent (Suc depth) name st = Inr (r, st1)"
  proof (cases "allFiles st (dirname name)")
    case (Some ret)
    with that show ?thesis by (simp add: Let_def)
  next
    case None
    with that obtain ret err st0 where
      c: "nextChild depth (dirname name) st = Inr ((ret, err), st0)"
      by (auto simp: Let_def split: sum.splits)
    from c Suc.IH have m: "stderr st0 = stderr st" by blast
    from that None c m show ?thesis
      by (auto simp: Let_def split: sum.splits if_splits dest!: NewDirectory_frame)
  qed
  from n g show ?case by blast
qed

section \<open>One step of the build loop\<close>

lemma buildEntry_unsupported:
  "\<not> supportedTypeFlag hdr \<Longrightarrow> buildEntry depth hdr st = Inr (None, st)"
  by (simp add: buildEntry_def)

lemma buildEntry_skip:
  "allFiles st (Clean (Name hdr)) = Some this \<Longrightarrow> buildEntry depth hdr st = Inr (None, st)"
  by (simp add: buildEntry_def)

lemma buildEntry_allFiles:
  assumes "buildEntry depth hdr st = Inr (e, st1)"
  shows "allFiles st \<subseteq>\<^sub>m allFiles st1"
proof (cases "supportedTypeFlag hdr \<and> allFiles st (Clean (Name hdr)) = None")
  case False
  with assms show ?thesis by (auto simp: buildEntry_def Let_def split: if_splits)
next
  case True
  with assms obtain this err st0 where
    n: "nextChild depth (Clean (Name hdr)) st = Inr ((this, err), st0)"
    by (auto simp: buildEntry_def Let_def split: sum.splits)
  from n walk_allFiles have m: "allFiles st \<subseteq>\<^sub>m allFiles st0" by blast
  from True have "Clean (Name hdr) \<notin> dom (allFiles st)" by auto
  with m have m2: "allFiles st \<subseteq>\<^sub>m (allFiles st0)(Clean (Name hdr) \<mapsto> this)"
    by (auto simp: map_le_def)
  have "allFiles st1 = allFiles st0 \<or> allFiles st1 = (allFiles st0)(Clean (Name hdr) \<mapsto> this)"
    using assms True n
    by (auto simp: buildEntry_def Let_def split: sum.splits if_splits
        dest!: NewDirectory_frame setter_frames)
  with m m2 show ?thesis by auto
qed

lemma buildEntry_registers:
  assumes "buildEntry depth hdr st = Inr (None, st1)" and "supportedTypeFlag hdr"
  shows "Clean (Name hdr) \<in> dom (allFiles st1)"
proof (cases "allFiles st (Clean (Name hdr))")
  case (Some this)
  with assms show ?thesis by (auto simp: buildEntry_def Let_def)
next
  case None
  with assms obtain this st0 where
    n: "nextChild depth (Clean (Name hdr)) st = Inr ((this, None), st0)"
    by (auto simp: buildEntry_def Let_def split: sum.splits if_splits)
  have "allFiles st1 = (allFiles st0)(Clean (Name hdr) \<mapsto> this)"
    using assms None n
    by (auto simp: buildEntry_def Let_def supportedTypeFlag_def split: sum.splits if_splits
        dest!: NewDirectory_frame setter_frames)
  then show ?thesis by simp
qed

lemma buildEntry_stderr:
  assumes "buildEntry depth hdr st = Inr (e, st1)"
  shows "stderr st1 = stderr st"
proof (cases "supportedTypeFlag hdr \<and> allFiles st (Clean (Name hdr)) = None")
  case False
  with assms show ?thesis by (auto simp: buildEntry_def Let_def split: if_splits)
next
  case True
  with assms obtain this err st0 where
    n: "nextChild depth (Clean (Name hdr)) st = Inr ((this, err), st0)"
    by (auto simp: buildEntry_def Let_def split: sum.splits)
  from n walk_stderr have m: "stderr st0 = stderr st" by blast
  from assms True n m show ?thesis
    by (auto simp: buildEntry_def Let_def split: sum.splits if_splits
        dest!: NewDirectory_frame setter_frames)
qed

lemma buildEntries_stderr:
  "buildEntries depth es st = Inr (e, st1) \<Longrightarrow> stderr st1 = stderr st"
  by (induction es arbitrary: st) (auto split: sum.splits if_splits dest!: buildEntry_stderr)

lemma buildLayers_stderr:
  "buildLayers depth ls st = Inr (e, st1) \<Longrightarrow> stderr st1 = stderr st"
  by (induction ls arbitrary: st) (auto split: sum.splits if_splits dest!: buildEntries_stderr)

lemma buildEntries_append:
  "buildEntries depth (xs @ ys) st =
     (case buildEntries depth xs st of
        Inl c \<Rightarrow> Inl c
      | Inr (err, st1) \<Rightarrow> if err \<noteq> None then Inr (err, st1) else buildEntries depth ys st1)"
  by (induction xs arbitrary: st) (auto split: sum.splits)

lemma buildLayers_stream:
  "buildLayers depth ls st = buildEntries depth (concat (map entries ls)) st"
  by (induction ls arbitrary: st) (auto simp: buildEntries_append split: sum.splits)

section \<open>The invariant along pass 2\<close>

lemma consistentD:
  assumes "consistent st"
  shows "brk st \<le> a \<Longrightarrow> cells st a = blank"
    and "allFiles st p \<noteq> Some Null"
    and "allFiles st p = Some (Ref a) \<Longrightarrow> a < brk st"
    and "allFiles st p = Some (Ref a) \<Longrightarrow> cells st a \<noteq> blank"
    and "allFiles st p = Some h \<Longrightarrow> allFiles st q = Some h \<Longrightarrow> p = q"
    and "allFiles st p = Some (Ref a) \<Longrightarrow> which (cells st a) = Directory l \<Longrightarrow>
           \<exists>b n. l = [b ..< b + n] \<and> b + n \<le> brk st"
    and "allFiles st p = Some (Ref a) \<Longrightarrow> allFiles st q = Some (Ref c) \<Longrightarrow> a \<noteq> c \<Longrightarrow>
           which (cells st a) = Directory l \<Longrightarrow> which (cells st c) = Directory m \<Longrightarrow>
           set l \<inter> set m = {}"
    and "allFiles st p = Some (Ref a) \<Longrightarrow> which (cells st a) = Directory l \<Longrightarrow>
           int (length l) - sizeAt (dirSizes st) p \<le> int i \<Longrightarrow> i < length l \<Longrightarrow>
           cells st (l ! i) = blank"
proof -
  note c = assms[unfolded consistent_def]
  from c show "brk st \<le> a \<Longrightarrow> cells st a = blank" by (elim conjE) fast
  from c show "allFiles st p \<noteq> Some Null" by (elim conjE) fast
  from c show "allFiles st p = Some (Ref a) \<Longrightarrow> a < brk st" by (elim conjE) fast
  from c show "allFiles st p = Some (Ref a) \<Longrightarrow> cells st a \<noteq> blank" by (elim conjE) fast
  from c show "allFiles st p = Some h \<Longrightarrow> allFiles st q = Some h \<Longrightarrow> p = q" by (elim conjE) fast
  from c show "allFiles st p = Some (Ref a) \<Longrightarrow> which (cells st a) = Directory l \<Longrightarrow>
           \<exists>b n. l = [b ..< b + n] \<and> b + n \<le> brk st" by (elim conjE) fast
  from c show "allFiles st p = Some (Ref a) \<Longrightarrow> allFiles st q = Some (Ref c) \<Longrightarrow> a \<noteq> c \<Longrightarrow>
           which (cells st a) = Directory l \<Longrightarrow> which (cells st c) = Directory m \<Longrightarrow>
           set l \<inter> set m = {}" by (elim conjE) fast
  from c show "allFiles st p = Some (Ref a) \<Longrightarrow> which (cells st a) = Directory l \<Longrightarrow>
           int (length l) - sizeAt (dirSizes st) p \<le> int i \<Longrightarrow> i < length l \<Longrightarrow>
           cells st (l ! i) = blank" by (elim conjE) fast
qed

lemma consistentI:
  assumes "\<And>a. brk st \<le> a \<Longrightarrow> cells st a = blank"
    and "\<And>p. allFiles st p \<noteq> Some Null"
    and "\<And>p a. allFiles st p = Some (Ref a) \<Longrightarrow> a < brk st"
    and "\<And>p a. allFiles st p = Some (Ref a) \<Longrightarrow> cells st a \<noteq> blank"
    and "\<And>p q h. allFiles st p = Some h \<Longrightarrow> allFiles st q = Some h \<Longrightarrow> p = q"
    and "\<And>p a l. allFiles st p = Some (Ref a) \<Longrightarrow> which (cells st a) = Directory l \<Longrightarrow>
           \<exists>b n. l = [b ..< b + n] \<and> b + n \<le> brk st"
    and "\<And>p q a c l m. allFiles st p = Some (Ref a) \<Longrightarrow> allFiles st q = Some (Ref c) \<Longrightarrow> a \<noteq> c \<Longrightarrow>
           which (cells st a) = Directory l \<Longrightarrow> which (cells st c) = Directory m \<Longrightarrow>
           set l \<inter> set m = {}"
    and "\<And>p a l i. allFiles st p = Some (Ref a) \<Longrightarrow> which (cells st a) = Directory l \<Longrightarrow>
           int (length l) - sizeAt (dirSizes st) p \<le> int i \<Longrightarrow> i < length l \<Longrightarrow>
           cells st (l ! i) = blank"
  shows "consistent st"
  unfolding consistent_def
  by (intro conjI allI impI; (elim conjE)?; (rule assms; assumption))

text \<open>A slot is assigned: the struct gets a name, the count of its directory goes down.\<close>

lemma assign_consistent:
  assumes c: "consistent st"
    and reg: "allFiles st p = Some (Ref a)"
    and dir: "which (cells st a) = Directory l"
    and lo: "int (length l) - sizeAt (dirSizes st) p \<le> int i" and hi: "i < length l"
    and af: "allFiles st1 = allFiles st" and bk: "brk st1 = brk st"
    and ce: "\<And>x. x \<noteq> l ! i \<Longrightarrow> cells st1 x = cells st x"
    and ds: "dirSizes st1 = (dirSizes st)(p \<mapsto> int (length l) - int i - 1)"
  shows "consistent st1"
proof -
  from consistentD(6)[OF c reg dir] obtain b n where
    l: "l = [b ..< b + n]" and lb: "b + n \<le> brk st" by blast
  from l have n: "length l = n" by simp
  have nth: "l ! j = b + j" if "j < length l" for j
    using that unfolding l by simp
  have blank_i: "cells st (l ! i) = blank" by (rule consistentD(8)[OF c reg dir lo hi])
  have unreg: "allFiles st q \<noteq> Some (Ref (l ! i))" for q
    using consistentD(4)[OF c, of q "l ! i"] blank_i by auto
  have same: "cells st1 x = cells st x" if "allFiles st q = Some (Ref x)" for q x
    using unreg[of q] that ce[of x] by auto
  show ?thesis
  proof (rule consistentI)
    fix x assume "brk st1 \<le> x"
    with bk lb nth[OF hi] hi n have "x \<noteq> l ! i" by simp
    with ce \<open>brk st1 \<le> x\<close> bk consistentD(1)[OF c] show "cells st1 x = blank" by simp
  next
    fix q show "allFiles st1 q \<noteq> Some Null" using af consistentD(2)[OF c] by simp
  next
    fix q x assume "allFiles st1 q = Some (Ref x)"
    with af have r: "allFiles st q = Some (Ref x)" by simp
    from consistentD(3)[OF c r] bk show "x < brk st1" by simp
  next
    fix q x assume "allFiles st1 q = Some (Ref x)"
    with af have r: "allFiles st q = Some (Ref x)" by simp
    from same[OF r] consistentD(4)[OF c r] show "cells st1 x \<noteq> blank" by simp
  next
    fix q q' h assume "allFiles st1 q = Some h" "allFiles st1 q' = Some h"
    with af consistentD(5)[OF c] show "q = q'" by simp
  next
    fix q x m assume "allFiles st1 q = Some (Ref x)" "which (cells st1 x) = Directory m"
    with af have r: "allFiles st q = Some (Ref x)" by simp
    with same[OF r] \<open>which (cells st1 x) = Directory m\<close>
    have "which (cells st x) = Directory m" by simp
    from consistentD(6)[OF c r this] bk
    show "\<exists>b n. m = [b ..< b + n] \<and> b + n \<le> brk st1" by simp
  next
    fix q q' x y m k
    assume "allFiles st1 q = Some (Ref x)" "allFiles st1 q' = Some (Ref y)" "x \<noteq> y"
      "which (cells st1 x) = Directory m" "which (cells st1 y) = Directory k"
    with af same consistentD(7)[OF c, of q x q' y m k]
    show "set m \<inter> set k = {}" by simp
  next
    fix q x m j
    assume r1: "allFiles st1 q = Some (Ref x)" and d1: "which (cells st1 x) = Directory m"
      and lo1: "int (length m) - sizeAt (dirSizes st1) q \<le> int j" and hi1: "j < length m"
    from r1 af have r: "allFiles st q = Some (Ref x)" by simp
    from same[OF r] d1 have d: "which (cells st x) = Directory m" by simp
    show "cells st1 (m ! j) = blank"
    proof (cases "q = p")
      case True
      with r reg d dir have xm: "x = a" "m = l" by simp_all
      from lo1 True ds have "int i < int j" by (simp add: sizeAt_def xm)
      then have ij: "i < j" by simp
      with lo have lo2: "int (length l) - sizeAt (dirSizes st) p \<le> int j" by simp
      from hi1 xm have hj: "j < length l" by simp
      from nth[OF hj] nth[OF hi] ij have "l ! j \<noteq> l ! i" by simp
      with ce consistentD(8)[OF c reg dir lo2 hj] xm show ?thesis by simp
    next
      case False
      with ds lo1 have lo2: "int (length m) - sizeAt (dirSizes st) q \<le> int j"
        by (simp add: sizeAt_def)
      have bj: "cells st (m ! j) = blank" by (rule consistentD(8)[OF c r d lo2 hi1])
      from False consistentD(5)[OF c r, of p] reg have "x \<noteq> a" by auto
      from consistentD(7)[OF c r reg this d dir] have "set m \<inter> set l = {}" .
      moreover from hi1 have "m ! j \<in> set m" by simp
      moreover from hi have "l ! i \<in> set l" by simp
      ultimately have "m ! j \<noteq> l ! i" by auto
      with ce bj show ?thesis by simp
    qed
  qed
qed


lemma cleanLoop_nonempty:
  "[] \<notin> set out \<Longrightarrow> [] \<notin> set (cleanLoop rooted out es)"
proof (induction es arbitrary: out)
  case Nil
  then show ?case by simp
next
  case (Cons e es)
  note IH = Cons.IH and prems = Cons.prems
  show ?case
  proof (cases "e = [] \<or> e = ''.''")
    case True
    with IH[of out] prems show ?thesis by simp
  next
    case False
    show ?thesis
    proof (cases "e = ''..''")
      case dd: True
      show ?thesis
      proof (cases out)
        case Nil
        with dd IH[of "if rooted then [] else [''..'']"] show ?thesis by simp
      next
        case (Cons el below)
        with dd prems IH[of "if el = ''..'' then ''..'' # out else below"]
        show ?thesis by (cases "el = ''..''") simp_all
      qed
    next
      case nd: False
      with False prems IH[of "e # out"] show ?thesis by auto
    qed
  qed
qed

lemma joinPath_nonempty: "out \<noteq> [] \<Longrightarrow> [] \<notin> set out \<Longrightarrow> joinPath out \<noteq> []"
  by (cases out rule: joinPath.cases) auto

lemma Clean_nonempty: "Clean path \<noteq> []"
proof (cases "path = []")
  case True
  then show ?thesis by (simp add: Clean_def)
next
  case False
  show ?thesis
  proof (cases "hd path = Separator")
    case True
    with False show ?thesis by (simp add: Clean_def Let_def)
  next
    case rel: False
    let ?out = "rev (cleanLoop False [] (elements path))"
    have "[] \<notin> set ?out"
      using cleanLoop_nonempty[of "[]" False "elements path"] by simp
    then have "?out \<noteq> [] \<Longrightarrow> joinPath ?out \<noteq> []" by (rule joinPath_nonempty[rotated])
    with False rel show ?thesis by (simp add: Clean_def Let_def)
  qed
qed

lemma basename_nonempty: "basename name \<noteq> []"
  by (simp add: basename_def Clean_nonempty)

text \<open>What \<open>afterGetParent\<close> does when it returns.\<close>

lemma Directory_of_Inr:
  "Directory_of parent st = Inr (l, e) \<Longrightarrow>
     e = None \<and> (\<exists>a. parent = Ref a \<and> which (cells st a) = Directory l)"
  by (auto simp: Directory_of_def split: handle.splits variant.splits)

lemma At_Inr: "At l k = Inr child \<Longrightarrow> 0 \<le> k \<and> k < int (length l) \<and> child = Ref (l ! nat k)"
  by (auto simp: At_def split: if_splits)

lemma SetName_cells:
  "SetName (Ref c) v st = Inr (e, st0) \<Longrightarrow>
     cells st0 = (if e = None then (cells st)(c := (cells st c)\<lparr>fileName := v\<rparr>) else cells st)"
  by (auto simp: SetName_def alloc_def split: option.splits if_splits)

lemma afterGetParent_shape:
  assumes "afterGetParent name parent st = Inr ((h, e), st1)"
  shows "\<exists>a l i. parent = Ref a \<and> which (cells st a) = Directory l \<and> i < length l \<and>
           int i = int (length l) - sizeAt (dirSizes st) (dirname name) \<and> h = Ref (l ! i) \<and>
           allFiles st1 = allFiles st \<and> brk st1 = brk st \<and>
           (\<forall>x. x \<noteq> l ! i \<longrightarrow> cells st1 x = cells st x) \<and>
           cells st1 (l ! i) =
             (if e = None then (cells st (l ! i))\<lparr>fileName := basename name\<rparr> else cells st (l ! i)) \<and>
           dirSizes st1 = (dirSizes st)(dirname name \<mapsto> int (length l) - int i - 1)"
proof -
  let ?k = "int (length l) - sizeAt (dirSizes st) (dirname name)"
  obtain l e0 where d0: "Directory_of parent st = Inr (l, e0)"
    using assms by (cases "Directory_of parent st") (auto simp: afterGetParent_def)
  from Directory_of_Inr[OF d0] obtain a where
    e0: "e0 = None" and a: "parent = Ref a" "which (cells st a) = Directory l" by blast
  let ?k = "int (length l) - sizeAt (dirSizes st) (dirname name)"
  obtain child where c: "At l ?k = Inr child"
    using assms d0 e0 by (cases "At l ?k") (auto simp: afterGetParent_def Let_def)
  from At_Inr[OF c] have k: "0 \<le> ?k" "?k < int (length l)" and ch: "child = Ref (l ! nat ?k)"
    by simp_all
  obtain e' st0 where s': "SetName child (basename name) st = Inr (e', st0)"
    using assms d0 e0 c
    by (cases "SetName child (basename name) st") (auto simp: afterGetParent_def Let_def)
  from assms d0 e0 c s' have hc: "h = child" and ee: "e' = e" and
    s1: "st1 = st0\<lparr>dirSizes := (dirSizes st0)(dirname name \<mapsto> sizeAt (dirSizes st0) (dirname name) - 1)\<rparr>"
    by (simp_all add: afterGetParent_def Let_def)
  from s' ee have s: "SetName child (basename name) st = Inr (e, st0)" by simp
  note f = SetName_frame[OF s]
  note ce = SetName_cells[OF s[unfolded ch]]
  from k have i: "nat ?k < length l" "int (nat ?k) = ?k" by simp_all
  have 1: "allFiles st1 = allFiles st" "brk st1 = brk st" using f s1 by simp_all
  have 2: "\<forall>x. x \<noteq> l ! nat ?k \<longrightarrow> cells st1 x = cells st x" using ce s1 by simp
  have 3: "cells st1 (l ! nat ?k) =
             (if e = None then (cells st (l ! nat ?k))\<lparr>fileName := basename name\<rparr>
              else cells st (l ! nat ?k))" using ce s1 by simp
  have 4: "dirSizes st1 = (dirSizes st)(dirname name \<mapsto> int (length l) - int (nat ?k) - 1)"
    using f s1 i(2) by simp
  have 5: "h = Ref (l ! nat ?k)" using hc ch by simp
  show ?thesis
    by (intro exI[of _ a] exI[of _ l] exI[of _ "nat ?k"] conjI) (fact a i 1 2 3 4 5)+
qed


text \<open>A struct that has its name and is in no list's unassigned part enters the name index.\<close>

lemma register_consistent:
  assumes c: "consistent st0"
    and un: "\<And>q. allFiles st0 q \<noteq> Some (Ref x)"
    and lt: "x < brk st0"
    and nm: "fileName (cells st0 x) \<noteq> []"
    and af: "allFiles st1 = (allFiles st0)(p \<mapsto> Ref x)"
    and ds: "dirSizes st1 = dirSizes st0"
    and bk: "brk st1 = brk st0 + n"
    and ce: "cells st1 = (cells st0)(x := (cells st0 x)\<lparr>which := v\<rparr>)"
    and v: "\<And>l. v = Directory l \<Longrightarrow> l = [brk st0 ..< brk st0 + n]"
  shows "consistent st1"
proof -
  have nb: "cells st0 x \<noteq> blank" using nm by (auto simp: blank_def)
  have old: "allFiles st0 q = Some (Ref y) \<and> y \<noteq> x \<and> cells st1 y = cells st0 y"
    if "allFiles st1 q = Some (Ref y)" "q \<noteq> p" for q y
    using that af un[of q] ce by auto
  have new: "y = x" if "allFiles st1 p = Some (Ref y)" for y
    using that af by simp
  have wx: "which (cells st1 x) = v" using ce by simp
  show ?thesis
  proof (rule consistentI)
    fix a assume "brk st1 \<le> a"
    with bk lt have "a \<noteq> x" "brk st0 \<le> a" by simp_all
    with ce consistentD(1)[OF c] show "cells st1 a = blank" by simp
  next
    fix q show "allFiles st1 q \<noteq> Some Null" using af consistentD(2)[OF c, of q] by simp
  next
    fix q y assume r: "allFiles st1 q = Some (Ref y)"
    show "y < brk st1"
    proof (cases "q = p")
      case True with r new lt bk show ?thesis by simp
    next
      case False
      with old[OF r] consistentD(3)[OF c, of q y] bk show ?thesis by simp
    qed
  next
    fix q y assume r: "allFiles st1 q = Some (Ref y)"
    show "cells st1 y \<noteq> blank"
    proof (cases "q = p")
      case True
      with r new have "y = x" by simp
      with ce have "fileName (cells st1 y) = fileName (cells st0 x)" by simp
      with nm show ?thesis by (auto simp: blank_def)
    next
      case False
      with old[OF r] consistentD(4)[OF c, of q y] show ?thesis by simp
    qed
  next
    fix q q' h assume r: "allFiles st1 q = Some h" "allFiles st1 q' = Some h"
    show "q = q'"
    proof (cases "q = p \<or> q' = p")
      case True
      with r af un show ?thesis by (auto split: if_splits)
    next
      case False
      with r af consistentD(5)[OF c, of q h q'] show ?thesis by simp
    qed
  next
    fix q y l assume r: "allFiles st1 q = Some (Ref y)" and d: "which (cells st1 y) = Directory l"
    show "\<exists>b n. l = [b ..< b + n] \<and> b + n \<le> brk st1"
    proof (cases "q = p")
      case True
      with r new have "y = x" by simp
      with d wx v[of l] have "l = [brk st0 ..< brk st0 + n]" by simp
      with bk show ?thesis by auto
    next
      case False
      from old[OF r False] d have "allFiles st0 q = Some (Ref y)" "which (cells st0 y) = Directory l"
        by simp_all
      from consistentD(6)[OF c this] bk show ?thesis by fastforce
    qed
  next
    fix q q' y z l m
    assume r: "allFiles st1 q = Some (Ref y)" and r': "allFiles st1 q' = Some (Ref z)"
      and ne: "y \<noteq> z" and d: "which (cells st1 y) = Directory l"
      and d': "which (cells st1 z) = Directory m"
    have below: "set k \<subseteq> {..<brk st0}"
      if "allFiles st0 t = Some (Ref w)" "which (cells st0 w) = Directory k" for t w k
      using consistentD(6)[OF c that] by auto
    have above: "set k \<subseteq> {brk st0..}" if "which (cells st1 x) = Directory k" for k
      using that wx v[of k] by auto
    show "set l \<inter> set m = {}"
    proof (cases "q = p")
      case qp: True
      with r new have yx: "y = x" by simp
      with ne r' new have "q' \<noteq> p" by auto
      from old[OF r' this] d' have "allFiles st0 q' = Some (Ref z)" "which (cells st0 z) = Directory m"
        by simp_all
      from below[OF this] above[of l] d yx show ?thesis by fastforce
    next
      case qp: False
      from old[OF r qp] d have o: "allFiles st0 q = Some (Ref y)" "which (cells st0 y) = Directory l"
        by simp_all
      show ?thesis
      proof (cases "q' = p")
        case True
        with r' new have "z = x" by simp
        with below[OF o] above[of m] d' show ?thesis by fastforce
      next
        case False
        from old[OF r' False] d' have "allFiles st0 q' = Some (Ref z)" "which (cells st0 z) = Directory m"
          by simp_all
        from consistentD(7)[OF c o(1) this(1) ne o(2) this(2)] show ?thesis .
      qed
    qed
  next
    fix q y l i
    assume r: "allFiles st1 q = Some (Ref y)" and d: "which (cells st1 y) = Directory l"
      and lo: "int (length l) - sizeAt (dirSizes st1) q \<le> int i" and hi: "i < length l"
    show "cells st1 (l ! i) = blank"
    proof (cases "q = p")
      case True
      with r new have "y = x" by simp
      with d wx v[of l] have l: "l = [brk st0 ..< brk st0 + n]" by simp
      with hi have "l ! i = brk st0 + i" by simp
      with lt ce consistentD(1)[OF c, of "brk st0 + i"] show ?thesis by simp
    next
      case False
      from old[OF r False] d have o: "allFiles st0 q = Some (Ref y)" "which (cells st0 y) = Directory l"
        by simp_all
      from lo ds have "int (length l) - sizeAt (dirSizes st0) q \<le> int i" by simp
      from consistentD(8)[OF c o this hi] have b: "cells st0 (l ! i) = blank" .
      with nb have "l ! i \<noteq> x" by auto
      with b ce show ?thesis by simp
    qed
  qed
qed


lemma afterGetParent_consistent:
  assumes c: "consistent st"
    and reg: "allFiles st (dirname name) = Some parent"
    and r: "afterGetParent name parent st = Inr ((h, e), st1)"
  shows "consistent st1 \<and> allFiles st1 = allFiles st \<and> brk st1 = brk st \<and>
         (\<exists>a l x. parent = Ref a \<and> which (cells st a) = Directory l \<and> x \<in> set l \<and>
            h = Ref x \<and> x < brk st \<and> (\<forall>q. allFiles st q \<noteq> Some (Ref x)) \<and>
            cells st x = blank \<and> (\<forall>y. y \<noteq> x \<longrightarrow> cells st1 y = cells st y) \<and>
            cells st1 x = (if e = None then \<lparr>fileName = basename name, which = Regular []\<rparr>
                           else blank))"
proof -
  from afterGetParent_shape[OF r] obtain a l i where
    p: "parent = Ref a" and d: "which (cells st a) = Directory l" and hi: "i < length l"
    and i: "int i = int (length l) - sizeAt (dirSizes st) (dirname name)"
    and h: "h = Ref (l ! i)" and af: "allFiles st1 = allFiles st" and bk: "brk st1 = brk st"
    and ce: "\<forall>x. x \<noteq> l ! i \<longrightarrow> cells st1 x = cells st x"
    and cx: "cells st1 (l ! i) =
               (if e = None then (cells st (l ! i))\<lparr>fileName := basename name\<rparr>
                else cells st (l ! i))"
    and ds: "dirSizes st1 = (dirSizes st)(dirname name \<mapsto> int (length l) - int i - 1)"
    by blast
  from reg p have reg': "allFiles st (dirname name) = Some (Ref a)" by simp
  from i have lo: "int (length l) - sizeAt (dirSizes st) (dirname name) \<le> int i" by simp
  have c1: "consistent st1"
    by (rule assign_consistent[OF c reg' d lo hi af bk _ ds]) (use ce in blast)
  have bl: "cells st (l ! i) = blank" by (rule consistentD(8)[OF c reg' d lo hi])
  from consistentD(6)[OF c reg' d] hi have lt: "l ! i < brk st" by auto
  have un: "\<forall>q. allFiles st q \<noteq> Some (Ref (l ! i))"
    using consistentD(4)[OF c] bl by blast
  from cx bl have cx': "cells st1 (l ! i) =
      (if e = None then \<lparr>fileName = basename name, which = Regular []\<rparr> else blank)"
    by (simp add: blank_def)
  from hi have mem: "l ! i \<in> set l" by simp
  from c1 af bk p d mem h lt un bl ce cx' show ?thesis by blast
qed

lemma At_Nil: "At [] k = Inl PanicOutOfBounds"
  by (auto simp: At_def)

lemma afterGetParent_crash:
  assumes "which (cells st x) = Regular [] \<or> which (cells st x) = Directory []"
  shows "afterGetParent name (Ref x) st = Inl PanicWhich \<or>
         afterGetParent name (Ref x) st = Inl PanicOutOfBounds"
  using assms by (auto simp: afterGetParent_def Directory_of_def At_Nil Let_def)

lemma NewDirectory_Inr:
  assumes "NewDirectory (Ref x) n st = Inr ((l, e), st1)"
  shows "allFiles st1 = allFiles st \<and> dirSizes st1 = dirSizes st \<and> stderr st1 = stderr st \<and>
         (e = None \<longrightarrow> l = [brk st ..< brk st + nat n] \<and> brk st1 = brk st + nat n \<and>
            cells st1 = (cells st)(x := (cells st x)\<lparr>which := Directory l\<rparr>)) \<and>
         (e \<noteq> None \<longrightarrow> brk st1 = brk st \<and>
            cells st1 = (cells st)(x := (cells st x)\<lparr>which := Directory []\<rparr>))"
  using assms
  by (auto simp: NewDirectory_def Let_def setWhich_def alloc_def split: if_splits)

lemma NewDirectory_Ref: "NewDirectory h n st = Inr (r, st1) \<Longrightarrow> \<exists>x. h = Ref x"
  by (cases h) (simp_all add: NewDirectory_def)


lemma untouched_refl: "untouched st st"
  by (simp add: untouched_def)

lemma untouched_step:
  assumes u: "untouched st st0" and m: "allFiles st \<subseteq>\<^sub>m allFiles st0"
    and un: "\<And>q. allFiles st0 q \<noteq> Some (Ref x)"
    and ce: "\<And>y. y \<noteq> x \<Longrightarrow> cells st1 y = cells st0 y"
  shows "untouched st st1"
  unfolding untouched_def
proof (intro allI impI)
  fix q y assume r: "allFiles st q = Some (Ref y)"
  with m have "allFiles st0 q = Some (Ref y)" by (auto simp: map_le_def dom_def)
  with un[of q] have "y \<noteq> x" by auto
  with ce[of y] u r show "cells st1 y = cells st y" by (simp add: untouched_def)
qed

lemma walk_consistent:
  "consistent st \<Longrightarrow>
   (nextChild depth name st = Inr ((h, e), st1) \<longrightarrow>
      consistent st1 \<and> untouched st st1 \<and>
      (\<exists>x. h = Ref x \<and> x < brk st1 \<and> (\<forall>q. allFiles st1 q \<noteq> Some (Ref x)) \<and>
           cells st1 x = (if e = None then \<lparr>fileName = basename name, which = Regular []\<rparr>
                          else blank))) \<and>
   (getParent depth name st = Inr ((h, e), st1) \<longrightarrow>
      untouched st st1 \<and>
      (e = None \<longrightarrow> consistent st1 \<and> allFiles st1 (dirname name) = Some h) \<and>
      (e \<noteq> None \<longrightarrow>
         (\<exists>x. h = Ref x \<and>
              (which (cells st1 x) = Regular [] \<or> which (cells st1 x) = Directory []))))"
proof (induction depth arbitrary: name st h e st1)
  case 0
  show ?case by simp
next
  case (Suc depth)
  note c = Suc.prems and IH = Suc.IH
  have n: "consistent st1 \<and> untouched st st1 \<and>
      (\<exists>x. h = Ref x \<and> x < brk st1 \<and> (\<forall>q. allFiles st1 q \<noteq> Some (Ref x)) \<and>
           cells st1 x = (if e = None then \<lparr>fileName = basename name, which = Regular []\<rparr>
                          else blank))"
    if nx: "nextChild (Suc depth) name st = Inr ((h, e), st1)"
  proof -
    obtain parent err st0 where
      g: "getParent depth name st = Inr ((parent, err), st0)"
      using nx by (cases "getParent depth name st") auto
    with nx have a: "afterGetParent name parent st0 = Inr ((h, e), st1)" by simp
    from IH[OF c, of name parent err st0] g have
      u0: "untouched st st0" and
      ok: "err = None \<longrightarrow> consistent st0 \<and> allFiles st0 (dirname name) = Some parent" and
      bad: "err \<noteq> None \<longrightarrow> (\<exists>x. parent = Ref x \<and>
              (which (cells st0 x) = Regular [] \<or> which (cells st0 x) = Directory []))"
      by blast+
    have "err = None"
    proof (rule ccontr)
      assume "err \<noteq> None"
      with bad obtain x where "parent = Ref x"
        "which (cells st0 x) = Regular [] \<or> which (cells st0 x) = Directory []" by blast
      with afterGetParent_crash[OF this(2), of name] a show False by auto
    qed
    with ok have c0: "consistent st0" and reg: "allFiles st0 (dirname name) = Some parent"
      by simp_all
    from afterGetParent_consistent[OF c0 reg a] obtain x where
      c1: "consistent st1" and af: "allFiles st1 = allFiles st0" and bk: "brk st1 = brk st0"
      and h: "h = Ref x" and lt: "x < brk st0" and un: "\<forall>q. allFiles st0 q \<noteq> Some (Ref x)"
      and ce: "\<forall>y. y \<noteq> x \<longrightarrow> cells st1 y = cells st0 y"
      and cx: "cells st1 x = (if e = None then \<lparr>fileName = basename name, which = Regular []\<rparr>
                              else blank)"
      by blast
    from g walk_allFiles have m: "allFiles st \<subseteq>\<^sub>m allFiles st0" by blast
    have "untouched st st1"
      by (rule untouched_step[OF u0 m]) (use un ce in auto)
    with c1 h lt bk un af cx show ?thesis by auto
  qed
  have g: "untouched st st1 \<and>
      (e = None \<longrightarrow> consistent st1 \<and> allFiles st1 (dirname name) = Some h) \<and>
      (e \<noteq> None \<longrightarrow>
         (\<exists>x. h = Ref x \<and>
              (which (cells st1 x) = Regular [] \<or> which (cells st1 x) = Directory [])))"
    if gp: "getParent (Suc depth) name st = Inr ((h, e), st1)"
  proof (cases "allFiles st (dirname name)")
    case (Some ret)
    with gp have "st1 = st" "h = ret" "e = None" by (simp_all add: Let_def)
    with c Some show ?thesis by (simp add: untouched_refl)
  next
    case None
    obtain ret err st0 where
      nc: "nextChild depth (dirname name) st = Inr ((ret, err), st0)"
      using gp None by (cases "nextChild depth (dirname name) st") (auto simp: Let_def)
    from IH[OF c, of "dirname name" ret err st0] nc obtain x where
      c0: "consistent st0" and u0: "untouched st st0" and ret: "ret = Ref x"
      and lt: "x < brk st0" and un: "\<forall>q. allFiles st0 q \<noteq> Some (Ref x)"
      and cx: "cells st0 x = (if err = None
                 then \<lparr>fileName = basename (dirname name), which = Regular []\<rparr> else blank)"
      by blast
    from nc walk_allFiles have m: "allFiles st \<subseteq>\<^sub>m allFiles st0" by blast
    show ?thesis
    proof (cases "err = None")
      case False
      with gp None nc have "st1 = st0" "h = ret" "e = err" by (auto simp: Let_def)
      with False u0 ret cx show ?thesis by (auto simp: blank_def)
    next
      case True
      let ?n = "int32 (sizeAt (dirSizes st0) (dirname name))"
      obtain l err1 st2 where nd: "NewDirectory (Ref x) ?n st0 = Inr ((l, err1), st2)"
        using gp None nc True ret
        by (cases "NewDirectory (Ref x) ?n st0") (auto simp: Let_def)
      note f = NewDirectory_Inr[OF nd]
      have ce2: "\<And>y. y \<noteq> x \<Longrightarrow> cells st2 y = cells st0 y"
        using f by (cases "err1 = None") simp_all
      have u2: "untouched st st2"
        by (rule untouched_step[OF u0 m]) (use un ce2 in auto)
      show ?thesis
      proof (cases "err1 = None")
        case False
        with gp None nc True ret nd have "st1 = st2" "h = Ref x" "e = err1"
          by (auto simp: Let_def)
        with False u2 f show ?thesis by auto
      next
        case e1: True
        with gp None nc True ret nd have
          s1: "st1 = st2\<lparr>allFiles := (allFiles st2)(dirname name \<mapsto> Ref x)\<rparr>"
          and h: "h = Ref x" and e: "e = None"
          by (auto simp: Let_def)
        from cx True have nm: "fileName (cells st0 x) \<noteq> []" by (simp add: basename_nonempty)
        have c1: "consistent st1"
        proof (rule register_consistent[OF c0 _ lt nm, of st1 "dirname name" "nat ?n" "Directory l"])
          show "\<And>q. allFiles st0 q \<noteq> Some (Ref x)" using un by simp
          show "allFiles st1 = (allFiles st0)(dirname name \<mapsto> Ref x)" using s1 f by simp
          show "dirSizes st1 = dirSizes st0" using s1 f by simp
          show "brk st1 = brk st0 + nat ?n" using s1 f e1 by simp
          show "cells st1 = (cells st0)(x := (cells st0 x)\<lparr>which := Directory l\<rparr>)"
            using s1 f e1 by simp
          show "\<And>k. Directory l = Directory k \<Longrightarrow> k = [brk st0 ..< brk st0 + nat ?n]"
            using f e1 by simp
        qed
        from u2 s1 have "untouched st st1" by (simp add: untouched_def)
        with c1 s1 h e show ?thesis by simp
      qed
    qed
  qed
  from n g show ?case by blast
qed


lemma setter_cells:
  "SetSymlink (Ref x) t st = Inr (e, st1) \<Longrightarrow>
     cells st1 = (cells st)(x := (cells st x)\<lparr>which := Symlink (if e = None then t else [])\<rparr>)"
  "SetRegular (Ref x) b st = Inr (e, st1) \<Longrightarrow>
     cells st1 = (cells st)(x := (cells st x)\<lparr>which := Regular (if e = None then b else [])\<rparr>)"
  "SetExecutable (Ref x) b st = Inr (e, st1) \<Longrightarrow>
     cells st1 = (cells st)(x := (cells st x)\<lparr>which := Executable (if e = None then b else [])\<rparr>)"
  by (auto simp: SetSymlink_def SetRegular_def SetExecutable_def Let_def setWhich_def alloc_def
      split: if_splits)

lemma setter_total:
  "\<exists>e st1. SetRegular (Ref x) b st = Inr (e, st1) \<and> (e = None \<longleftrightarrow> wordsFor (length b) \<le> room st)"
  "\<exists>e st1. SetExecutable (Ref x) b st = Inr (e, st1) \<and> (e = None \<longleftrightarrow> wordsFor (length b) \<le> room st)"
  by (auto simp: SetRegular_def SetExecutable_def Let_def setWhich_def alloc_def)

text \<open>One step of the loop that goes on, from a consistent state.\<close>

lemma buildEntry_consistent:
  assumes c: "consistent st" and r: "buildEntry depth hdr st = Inr (None, st1)"
  shows "consistent st1 \<and> untouched st st1 \<and>
         (supportedTypeFlag hdr \<and> allFiles st (Clean (Name hdr)) = None \<longrightarrow>
            (\<exists>x. allFiles st1 (Clean (Name hdr)) = Some (Ref x) \<and> storedAs hdr (cells st1 x)))"
proof (cases "supportedTypeFlag hdr \<and> allFiles st (Clean (Name hdr)) = None")
  case False
  with r have "st1 = st" by (auto simp: buildEntry_def Let_def split: if_splits)
  with c False show ?thesis by (simp add: untouched_refl)
next
  case True
  let ?name = "Clean (Name hdr)"
  from True have sup: "supportedTypeFlag hdr" and fresh: "allFiles st ?name = None" by simp_all
  obtain this err st0 where nc: "nextChild depth ?name st = Inr ((this, err), st0)"
    using r True by (cases "nextChild depth ?name st") (auto simp: buildEntry_def Let_def)
  have err: "err = None"
    using r True nc by (auto simp: buildEntry_def Let_def split: if_splits)
  from walk_consistent[OF c, of depth ?name this err st0] nc err obtain x where
    c0: "consistent st0" and u0: "untouched st st0" and tR: "this = Ref x"
    and lt: "x < brk st0" and un: "\<forall>q. allFiles st0 q \<noteq> Some (Ref x)"
    and cx: "cells st0 x = \<lparr>fileName = basename ?name, which = Regular []\<rparr>"
    by auto
  from nc walk_allFiles have m: "allFiles st \<subseteq>\<^sub>m allFiles st0" by blast
  let ?st2 = "st0\<lparr>allFiles := (allFiles st0)(?name \<mapsto> Ref x)\<rparr>"
  from cx have nm: "fileName (cells st0 x) \<noteq> []" by (simp add: basename_nonempty)
  have unq: "\<And>q. allFiles st0 q \<noteq> Some (Ref x)" using un by simp
  have rest: "consistent st1 \<and> (\<forall>y. y \<noteq> x \<longrightarrow> cells st1 y = cells st0 y) \<and>
              allFiles st1 ?name = Some (Ref x) \<and> storedAs hdr (cells st1 x)"
  proof (cases "Typeflag hdr = TypeDir")
    case True
    let ?n = "int32 (sizeAt (dirSizes ?st2) ?name)"
    obtain l st3 where nd: "NewDirectory (Ref x) ?n ?st2 = Inr ((l, None), st3)" and s: "st1 = st3"
      using r sup fresh nc err tR True
      by (cases "NewDirectory (Ref x) ?n ?st2") (auto simp: buildEntry_def Let_def)
    note f = NewDirectory_Inr[OF nd]
    have "consistent st1"
    proof (rule register_consistent[OF c0 unq lt nm, of st1 ?name "nat ?n" "Directory l"])
      show "allFiles st1 = (allFiles st0)(?name \<mapsto> Ref x)" using s f by simp
      show "dirSizes st1 = dirSizes st0" using s f by simp
      show "brk st1 = brk st0 + nat ?n" using s f by simp
      show "cells st1 = (cells st0)(x := (cells st0 x)\<lparr>which := Directory l\<rparr>)" using s f by simp
      show "\<And>k. Directory l = Directory k \<Longrightarrow> k = [brk st0 ..< brk st0 + nat ?n]"
        using f by simp
    qed
    moreover have "storedAs hdr (cells st1 x)" using s f cx True by (simp add: storedAs_def)
    ultimately show ?thesis using s f by simp
  next
    case nd: False
    show ?thesis
    proof (cases "Typeflag hdr = TypeSymlink")
      case True
      have ss: "SetSymlink (Ref x) (Linkname hdr) ?st2 = Inr (None, st1)"
        using r sup fresh nc err tR nd True by (simp add: buildEntry_def Let_def)
      note f = setter_frames(1)[OF ss] and g = setter_cells(1)[OF ss]
      have "consistent st1"
      proof (rule register_consistent[OF c0 unq lt nm, of st1 ?name 0 "Symlink (Linkname hdr)"])
        show "allFiles st1 = (allFiles st0)(?name \<mapsto> Ref x)" using f by simp
        show "dirSizes st1 = dirSizes st0" using f by simp
        show "brk st1 = brk st0 + 0" using f by simp
        show "cells st1 = (cells st0)(x := (cells st0 x)\<lparr>which := Symlink (Linkname hdr)\<rparr>)"
          using g by simp
      qed simp
      moreover have "storedAs hdr (cells st1 x)" using g cx True by (simp add: storedAs_def)
      ultimately show ?thesis using f g by simp
    next
      case ns: False
      with sup nd have reg: "Typeflag hdr = TypeReg" by (simp add: supportedTypeFlag_def)
      obtain b where b: "content hdr = Inr b"
        using r sup fresh nc err tR nd ns reg
        by (cases "content hdr") (auto simp: buildEntry_def Let_def)
      show ?thesis
      proof (cases "Perm (Mode hdr) AND execBits = 0")
        case True
        obtain e2 where ss: "SetRegular (Ref x) b ?st2 = Inr (e2, st1)"
          using r sup fresh nc err tR nd ns reg b True
          by (cases "SetRegular (Ref x) b ?st2") (auto simp: buildEntry_def Let_def)
        note f = setter_frames(2)[OF ss] and g = setter_cells(2)[OF ss]
        have "consistent st1"
        proof (rule register_consistent[OF c0 unq lt nm, of st1 ?name 0
                "Regular (if e2 = None then b else [])"])
          show "allFiles st1 = (allFiles st0)(?name \<mapsto> Ref x)" using f by simp
          show "dirSizes st1 = dirSizes st0" using f by simp
          show "brk st1 = brk st0 + 0" using f by simp
          show "cells st1 = (cells st0)(x := (cells st0 x)
                  \<lparr>which := Regular (if e2 = None then b else [])\<rparr>)"
            using g by simp
        qed simp
        moreover have "storedAs hdr (cells st1 x)"
          using g cx reg True b by (simp add: storedAs_def)
        ultimately show ?thesis using f g by simp
      next
        case False
        obtain e2 where ss: "SetExecutable (Ref x) b ?st2 = Inr (e2, st1)"
          using r sup fresh nc err tR nd ns reg b False
          by (cases "SetExecutable (Ref x) b ?st2") (auto simp: buildEntry_def Let_def)
        note f = setter_frames(3)[OF ss] and g = setter_cells(3)[OF ss]
        have "consistent st1"
        proof (rule register_consistent[OF c0 unq lt nm, of st1 ?name 0
                "Executable (if e2 = None then b else [])"])
          show "allFiles st1 = (allFiles st0)(?name \<mapsto> Ref x)" using f by simp
          show "dirSizes st1 = dirSizes st0" using f by simp
          show "brk st1 = brk st0 + 0" using f by simp
          show "cells st1 = (cells st0)(x := (cells st0 x)
                  \<lparr>which := Executable (if e2 = None then b else [])\<rparr>)"
            using g by simp
        qed simp
        moreover have "storedAs hdr (cells st1 x)"
          using g cx reg False b by (simp add: storedAs_def)
        ultimately show ?thesis using f g by simp
      qed
    qed
  qed
  then have ce: "\<And>y. y \<noteq> x \<Longrightarrow> cells st1 y = cells st0 y" by blast
  have "untouched st st1" by (rule untouched_step[OF u0 m unq ce])
  with rest True show ?thesis by blast
qed


lemma untouched_trans:
  assumes "untouched st st0" "allFiles st \<subseteq>\<^sub>m allFiles st0" "untouched st0 st1"
  shows "untouched st st1"
  unfolding untouched_def
proof (intro allI impI)
  fix q x assume r: "allFiles st q = Some (Ref x)"
  with assms(2) have "allFiles st0 q = Some (Ref x)" by (auto simp: map_le_def dom_def)
  with assms(1,3) r show "cells st1 x = cells st x" by (simp add: untouched_def)
qed

lemma buildEntries_Cons_None:
  assumes "buildEntries depth (hdr # rest) st = Inr (None, st1)"
  shows "\<exists>st0. buildEntry depth hdr st = Inr (None, st0) \<and>
               buildEntries depth rest st0 = Inr (None, st1)"
proof (cases "buildEntry depth hdr st")
  case (Inl c)
  with assms show ?thesis by simp
next
  case (Inr r)
  obtain e st0 where "r = (e, st0)" by (cases r)
  with Inr assms show ?thesis by (cases e) auto
qed

lemma buildEntries_consistent:
  "consistent st \<Longrightarrow> buildEntries depth es st = Inr (None, st1) \<Longrightarrow>
     consistent st1 \<and> untouched st st1 \<and> allFiles st \<subseteq>\<^sub>m allFiles st1"
proof (induction es arbitrary: st)
  case Nil
  then show ?case by (simp add: untouched_refl)
next
  case (Cons hdr rest)
  from buildEntries_Cons_None[OF Cons.prems(2)] obtain st0 where
    a: "buildEntry depth hdr st = Inr (None, st0)" and
    b: "buildEntries depth rest st0 = Inr (None, st1)" by blast
  from buildEntry_consistent[OF Cons.prems(1) a] have c0: "consistent st0" and u0: "untouched st st0"
    by simp_all
  from buildEntry_allFiles[OF a] have m0: "allFiles st \<subseteq>\<^sub>m allFiles st0" .
  from Cons.IH[OF c0 b] have "consistent st1" "untouched st0 st1" "allFiles st0 \<subseteq>\<^sub>m allFiles st1"
    by simp_all
  with u0 m0 show ?case by (auto intro: untouched_trans map_le_trans)
qed

text \<open>The node an entry creates is the one the name index holds for its path at the end.\<close>

lemma created_survives:
  assumes c: "consistent st0"
    and r: "buildEntries depth (hdr # rest) st0 = Inr (None, st1)"
    and sup: "supportedTypeFlag hdr" and fresh: "allFiles st0 (Clean (Name hdr)) = None"
  shows "\<exists>x. allFiles st1 (Clean (Name hdr)) = Some (Ref x) \<and> storedAs hdr (cells st1 x)"
proof -
  from buildEntries_Cons_None[OF r] obtain sta where
    a: "buildEntry depth hdr st0 = Inr (None, sta)" and
    b: "buildEntries depth rest sta = Inr (None, st1)" by blast
  from buildEntry_consistent[OF c a] sup fresh obtain x where
    ca: "consistent sta" and x: "allFiles sta (Clean (Name hdr)) = Some (Ref x)"
    and s: "storedAs hdr (cells sta x)" by blast
  from buildEntries_consistent[OF ca b] have u: "untouched sta st1" and m: "allFiles sta \<subseteq>\<^sub>m allFiles st1"
    by simp_all
  from m x have "allFiles st1 (Clean (Name hdr)) = Some (Ref x)" by (auto simp: map_le_def dom_def)
  moreover from u x have "cells st1 x = cells sta x" by (simp add: untouched_def)
  ultimately show ?thesis using s by simp
qed

text \<open>The paths the recursion can add to the name index.\<close>

lemma ancestry_mono: "set (ancestry depth name) \<subseteq> set (ancestry (Suc depth) name)"
  by (induction depth arbitrary: name) auto

lemma ancestry_head: "name \<in> set (ancestry depth name)"
  by (cases depth) simp_all

lemma walk_dom:
  "(nextChild depth name st = Inr (r, st1) \<longrightarrow>
      dom (allFiles st1) \<subseteq> dom (allFiles st) \<union> set (ancestry depth name)) \<and>
   (getParent depth name st = Inr (r, st1) \<longrightarrow>
      dom (allFiles st1) \<subseteq> dom (allFiles st) \<union> set (ancestry depth name))"
proof (induction depth arbitrary: name st r st1)
  case 0
  show ?case by simp
next
  case (Suc depth)
  have n: "dom (allFiles st1) \<subseteq> dom (allFiles st) \<union> set (ancestry (Suc depth) name)"
    if nx: "nextChild (Suc depth) name st = Inr (r, st1)"
  proof -
    obtain parent err st0 where g: "getParent depth name st = Inr ((parent, err), st0)"
      using nx by (cases "getParent depth name st") auto
    with nx have a: "afterGetParent name parent st0 = Inr (r, st1)" by simp
    from g Suc.IH have "dom (allFiles st0) \<subseteq> dom (allFiles st) \<union> set (ancestry depth name)"
      by blast
    with afterGetParent_allFiles[OF a] ancestry_mono[of depth name] show ?thesis by auto
  qed
  have g: "dom (allFiles st1) \<subseteq> dom (allFiles st) \<union> set (ancestry (Suc depth) name)"
    if gp: "getParent (Suc depth) name st = Inr (r, st1)"
  proof (cases "allFiles st (dirname name)")
    case (Some ret)
    with gp show ?thesis by (auto simp: Let_def)
  next
    case None
    obtain ret err st0 where nc: "nextChild depth (dirname name) st = Inr ((ret, err), st0)"
      using gp None by (cases "nextChild depth (dirname name) st") (auto simp: Let_def)
    from nc Suc.IH have b: "dom (allFiles st0) \<subseteq> dom (allFiles st) \<union> set (ancestry depth (dirname name))"
      by blast
    have "dom (allFiles st1) \<subseteq> insert (dirname name) (dom (allFiles st0))"
      using gp None nc
      by (auto simp: Let_def split: if_splits sum.splits dest!: NewDirectory_frame)
    moreover have "set (ancestry (Suc depth) name) = insert name (set (ancestry depth (dirname name)))"
      by simp
    ultimately show ?thesis using b ancestry_head[of "dirname name" depth] by blast
  qed
  from n g show ?case by blast
qed

lemma buildEntry_dom:
  assumes "buildEntry depth hdr st = Inr (e, st1)"
  shows "dom (allFiles st1) \<subseteq> dom (allFiles st) \<union> set (reach depth [hdr])"
proof (cases "supportedTypeFlag hdr \<and> allFiles st (Clean (Name hdr)) = None")
  case False
  with assms show ?thesis by (auto simp: buildEntry_def Let_def split: if_splits)
next
  case True
  with assms obtain this err st0 where
    n: "nextChild depth (Clean (Name hdr)) st = Inr ((this, err), st0)"
    by (auto simp: buildEntry_def Let_def split: sum.splits)
  from n walk_dom have
    b: "dom (allFiles st0) \<subseteq> dom (allFiles st) \<union> set (ancestry depth (Clean (Name hdr)))"
    by blast
  have "allFiles st1 = allFiles st0 \<or> allFiles st1 = (allFiles st0)(Clean (Name hdr) \<mapsto> this)"
    using assms True n
    by (auto simp: buildEntry_def Let_def split: sum.splits if_splits
        dest!: NewDirectory_frame setter_frames)
  then have "dom (allFiles st1) \<subseteq> insert (Clean (Name hdr)) (dom (allFiles st0))" by auto
  moreover from True have "set (reach depth [hdr]) = set (ancestry depth (Clean (Name hdr)))"
    by (simp add: reach_def)
  ultimately show ?thesis using b ancestry_head[of "Clean (Name hdr)" depth] by blast
qed

lemma reach_Cons: "set (reach depth (hdr # rest)) = set (reach depth [hdr]) \<union> set (reach depth rest)"
  by (simp add: reach_def)

lemma buildEntries_dom:
  "buildEntries depth es st = Inr (e, st1) \<Longrightarrow>
     dom (allFiles st1) \<subseteq> dom (allFiles st) \<union> set (reach depth es)"
proof (induction es arbitrary: st)
  case Nil
  then show ?case by simp
next
  case (Cons hdr rest)
  show ?case
  proof (cases "buildEntry depth hdr st")
    case (Inl c)
    with Cons.prems show ?thesis by simp
  next
    case (Inr p)
    obtain e0 st0 where p: "p = (e0, st0)" by (cases p)
    from buildEntry_dom[OF Inr[unfolded p]]
    have d0: "dom (allFiles st0) \<subseteq> dom (allFiles st) \<union> set (reach depth [hdr])" .
    show ?thesis
    proof (cases e0)
      case None
      with Inr p Cons.prems have "buildEntries depth rest st0 = Inr (e, st1)" by simp
      from Cons.IH[OF this] d0 reach_Cons[of depth hdr rest] show ?thesis by blast
    next
      case (Some err)
      with Inr p Cons.prems have "st1 = st0" by simp
      with d0 reach_Cons[of depth hdr rest] show ?thesis by blast
    qed
  qed
qed


text \<open>The state in which the loop of \<open>buildArchive\<close> starts.\<close>

lemma rooted_consistent:
  assumes a: "NewArchive (initial sizes space) = ((ret, None), st1)"
    and f: "NewArchive_File st1 = ((root, None), st2)"
    and d: "NewDirectory root n st2 = Inr ((rootFiles, None), st3)"
  shows "consistent (st3\<lparr>allFiles := (allFiles st3)(''.'' \<mapsto> root)\<rparr>) \<and>
         dom (allFiles (st3\<lparr>allFiles := (allFiles st3)(''.'' \<mapsto> root)\<rparr>)) = {''.''}"
proof -
  from a have 1: "allFiles st1 = Map.empty" "cells st1 = (\<lambda>a. blank)" "brk st1 = 0"
    by (auto simp: NewArchive_def initial_def alloc_def split: if_splits)
  from f 1 have 2: "root = Ref 0" "allFiles st2 = Map.empty" "cells st2 = (\<lambda>a. blank)" "brk st2 = 1"
    by (auto simp: NewArchive_File_def alloc_def split: if_splits)
  note g = NewDirectory_Inr[OF d[unfolded 2(1)]]
  define st where "st = st3\<lparr>allFiles := (allFiles st3)(''.'' \<mapsto> root)\<rparr>"
  have af: "allFiles st = [''.'' \<mapsto> Ref 0]" using g 2 by (simp add: st_def)
  have bk: "brk st = brk st2 + nat n" using g by (simp add: st_def)
  have l: "rootFiles = [brk st2 ..< brk st2 + nat n]" using g by simp
  have c0: "cells st 0 = blank\<lparr>which := Directory rootFiles\<rparr>"
    using g 2 by (simp add: st_def)
  have cn: "cells st a = blank" if "a \<noteq> 0" for a
    using g 2 that by (simp add: st_def)
  have reg: "q = ''.'' \<and> x = 0" if "allFiles st q = Some (Ref x)" for q x
    using that af by (auto split: if_splits)
  have nth: "rootFiles ! i = brk st2 + i" if "i < length rootFiles" for i
    using that unfolding l by simp
  have "consistent st"
  proof (rule consistentI)
    fix a assume "brk st \<le> a"
    with bk 2(4) have "a \<noteq> 0" by simp
    then show "cells st a = blank" by (rule cn)
  next
    fix q show "allFiles st q \<noteq> Some Null" using af by simp
  next
    fix q x assume "allFiles st q = Some (Ref x)"
    from reg[OF this] bk 2(4) show "x < brk st" by simp
  next
    fix q x assume "allFiles st q = Some (Ref x)"
    from reg[OF this] c0 show "cells st x \<noteq> blank" by (simp add: blank_def)
  next
    fix q q' h assume "allFiles st q = Some h" "allFiles st q' = Some h"
    with af show "q = q'" by (auto split: if_splits)
  next
    fix q x k assume r: "allFiles st q = Some (Ref x)" and w: "which (cells st x) = Directory k"
    from reg[OF r] w c0 have "k = rootFiles" by simp
    then have "k = [brk st2 ..< brk st2 + nat n]" using l by simp
    moreover from bk have "brk st2 + nat n \<le> brk st" by simp
    ultimately have kk: "k = [brk st2 ..< brk st2 + nat n] \<and> brk st2 + nat n \<le> brk st" ..
    show "\<exists>b n. k = [b ..< b + n] \<and> b + n \<le> brk st"
      by (rule exI[of _ "brk st2"], rule exI[of _ "nat n"]) (rule kk)
  next
    fix q q' x y k m
    assume rx: "allFiles st q = Some (Ref x)" and ry: "allFiles st q' = Some (Ref y)"
      and ne: "x \<noteq> y"
    from reg[OF rx] reg[OF ry] ne show "set k \<inter> set m = {}" by simp
  next
    fix q x k i
    assume r: "allFiles st q = Some (Ref x)" and w: "which (cells st x) = Directory k"
      and hi: "i < length k"
    from reg[OF r] w c0 have k: "k = rootFiles" by simp
    from nth[of i] hi k 2(4) have "k ! i \<noteq> 0" by simp
    then show "cells st (k ! i) = blank" by (rule cn)
  qed
  with af show ?thesis unfolding st_def by simp
qed

lemma buildEntries_append_None:
  assumes "buildEntries depth (xs @ ys) st = Inr (None, st1)"
  shows "\<exists>st0. buildEntries depth xs st = Inr (None, st0) \<and>
               buildEntries depth ys st0 = Inr (None, st1)"
proof (cases "buildEntries depth xs st")
  case (Inl c)
  with assms show ?thesis by (simp add: buildEntries_append)
next
  case (Inr p)
  obtain e st0 where "p = (e, st0)" by (cases p)
  with Inr assms show ?thesis by (cases e) (auto simp: buildEntries_append)
qed

lemma rootOnly_consistent: "consistent (rootOnly sizes n space)"
proof -
  define st where "st = rootOnly sizes n space"
  define b :: nat where "b = 1"
  have af: "allFiles st = [''.'' \<mapsto> Ref 0]" by (simp add: st_def rootOnly_def)
  have bk: "brk st = b + n" by (simp add: st_def rootOnly_def b_def)
  have c0: "cells st 0 = \<lparr>fileName = [], which = Directory [b ..< b + n]\<rparr>"
    by (simp add: st_def rootOnly_def b_def)
  have cn: "cells st a = blank" if "a \<noteq> 0" for a
    using that by (simp add: st_def rootOnly_def)
  have reg: "q = ''.'' \<and> x = 0" if "allFiles st q = Some (Ref x)" for q x
    using that af by (auto split: if_splits)
  have "consistent st"
  proof (rule consistentI)
    fix a assume "brk st \<le> a"
    with bk have "a \<noteq> 0" by (simp add: b_def)
    then show "cells st a = blank" by (rule cn)
  next
    fix q show "allFiles st q \<noteq> Some Null" using af by simp
  next
    fix q x assume "allFiles st q = Some (Ref x)"
    from reg[OF this] bk show "x < brk st" by (simp add: b_def)
  next
    fix q x assume "allFiles st q = Some (Ref x)"
    from reg[OF this] c0 show "cells st x \<noteq> blank" by (simp add: blank_def)
  next
    fix q q' h assume "allFiles st q = Some h" "allFiles st q' = Some h"
    with af show "q = q'" by (auto split: if_splits)
  next
    fix q x k assume r: "allFiles st q = Some (Ref x)" and w: "which (cells st x) = Directory k"
    from reg[OF r] w c0 have "k = [b ..< b + n]" by simp
    moreover from bk have "b + n \<le> brk st" by simp
    ultimately have kk: "k = [b ..< b + n] \<and> b + n \<le> brk st" ..
    show "\<exists>b n. k = [b ..< b + n] \<and> b + n \<le> brk st"
      by (rule exI[of _ b], rule exI[of _ n]) (rule kk)
  next
    fix q q' x y k m
    assume rx: "allFiles st q = Some (Ref x)" and ry: "allFiles st q' = Some (Ref y)"
      and ne: "x \<noteq> y"
    from reg[OF rx] reg[OF ry] ne show "set k \<inter> set m = {}" by simp
  next
    fix q x k i
    assume r: "allFiles st q = Some (Ref x)" and w: "which (cells st x) = Directory k"
      and hi: "i < length k"
    from reg[OF r] w c0 have k: "k = [b ..< b + n]" by simp
    from hi have "k ! i = b + i" unfolding k by simp
    then have "k ! i \<noteq> 0" by (simp add: b_def)
    then show "cells st (k ! i) = blank" by (rule cn)
  qed
  then show ?thesis by (simp add: st_def)
qed

lemma nextChild_Ref: "nextChild depth name st = Inr ((h, e), st1) \<Longrightarrow> \<exists>x. h = Ref x"
proof (cases depth)
  case 0
  then show "nextChild depth name st = Inr ((h, e), st1) \<Longrightarrow> ?thesis" by simp
next
  case (Suc d)
  assume r: "nextChild depth name st = Inr ((h, e), st1)"
  obtain parent err st0 where g: "getParent d name st = Inr ((parent, err), st0)"
    using r Suc by (cases "getParent d name st") auto
  with r Suc have "afterGetParent name parent st0 = Inr ((h, e), st1)" by simp
  from afterGetParent_shape[OF this] show ?thesis by blast
qed

lemma nodeOf_eq:
  "nodeOf st p = Some f \<longleftrightarrow> (\<exists>x. allFiles st p = Some (Ref x) \<and> cells st x = f)"
  by (auto simp: nodeOf_def split: option.splits handle.splits)

section \<open>The tree and the name index\<close>

text \<open>A call of \<open>nextChild\<close> that returns has not put its own path into the name index.\<close>

lemma funpow_period: "(f ^^ i) q = q \<Longrightarrow> (f ^^ (i * m + r)) q = (f ^^ r) q"
proof (induction m)
  case 0
  show ?case by simp
next
  case (Suc m)
  have "i * Suc m + r = (i * m + r) + i" by simp
  then have "(f ^^ (i * Suc m + r)) q = (f ^^ (i * m + r)) ((f ^^ i) q)"
    by (simp only: funpow_add o_apply)
  with Suc show ?case by simp
qed

lemma walk_first:
  "(nextChild depth q st = Inr (r, st1) \<longrightarrow>
      (\<exists>j. firstKnown st q j \<and>
           dom (allFiles st1) \<subseteq> dom (allFiles st) \<union> {(dirname ^^ i) q | i. 1 \<le> i \<and> i < j})) \<and>
   (getParent depth q st = Inr (r, st1) \<longrightarrow>
      (\<exists>j. firstKnown st q j \<and>
           dom (allFiles st1) \<subseteq> dom (allFiles st) \<union> {(dirname ^^ i) q | i. 1 \<le> i \<and> i < j}))"
proof (induction depth arbitrary: q st r st1)
  case 0
  show ?case by simp
next
  case (Suc depth)
  have n: "\<exists>j. firstKnown st q j \<and>
           dom (allFiles st1) \<subseteq> dom (allFiles st) \<union> {(dirname ^^ i) q | i. 1 \<le> i \<and> i < j}"
    if nx: "nextChild (Suc depth) q st = Inr (r, st1)"
  proof -
    obtain parent err st0 where g: "getParent depth q st = Inr ((parent, err), st0)"
      using nx by (cases "getParent depth q st") auto
    with nx have a: "afterGetParent q parent st0 = Inr (r, st1)" by simp
    from g Suc.IH obtain j where "firstKnown st q j"
      "dom (allFiles st0) \<subseteq> dom (allFiles st) \<union> {(dirname ^^ i) q | i. 1 \<le> i \<and> i < j}"
      by blast
    with afterGetParent_allFiles[OF a] show ?thesis by auto
  qed
  have g: "\<exists>j. firstKnown st q j \<and>
           dom (allFiles st1) \<subseteq> dom (allFiles st) \<union> {(dirname ^^ i) q | i. 1 \<le> i \<and> i < j}"
    if gp: "getParent (Suc depth) q st = Inr (r, st1)"
  proof (cases "allFiles st (dirname q)")
    case (Some ret)
    with gp have "st1 = st" by (auto simp: Let_def)
    moreover from Some have "firstKnown st q 1" by (simp add: firstKnown_def)
    ultimately show ?thesis by blast
  next
    case None
    obtain ret err st0 where nc: "nextChild depth (dirname q) st = Inr ((ret, err), st0)"
      using gp None by (cases "nextChild depth (dirname q) st") (auto simp: Let_def)
    from nc Suc.IH obtain j where fk: "firstKnown st (dirname q) j"
      and d0: "dom (allFiles st0) \<subseteq>
                 dom (allFiles st) \<union> {(dirname ^^ i) (dirname q) | i. 1 \<le> i \<and> i < j}"
      by blast
    have d1: "dom (allFiles st1) \<subseteq> insert (dirname q) (dom (allFiles st0))"
      using gp None nc
      by (auto simp: Let_def split: if_splits sum.splits dest!: NewDirectory_frame)
    have sw: "(dirname ^^ i) (dirname q) = (dirname ^^ Suc i) q" for i
      by (simp add: funpow_swap1)
    from fk have j1: "1 \<le> j" and jk: "allFiles st ((dirname ^^ j) (dirname q)) \<noteq> None"
      and jm: "\<And>i. 1 \<le> i \<Longrightarrow> i < j \<Longrightarrow> allFiles st ((dirname ^^ i) (dirname q)) = None"
      by (simp_all add: firstKnown_def)
    have "firstKnown st q (Suc j)"
      unfolding firstKnown_def
    proof (intro conjI allI impI)
      show "1 \<le> Suc j" by simp
      show "allFiles st ((dirname ^^ Suc j) q) \<noteq> None" using jk unfolding sw .
      fix i assume i: "1 \<le> i \<and> i < Suc j"
      then obtain k where k: "i = Suc k" by (cases i) auto
      show "allFiles st ((dirname ^^ i) q) = None"
      proof (cases "k = 0")
        case True
        with k None show ?thesis by simp
      next
        case False
        with i k have "1 \<le> k" "k < j" by simp_all
        from jm[OF this] show ?thesis unfolding sw k .
      qed
    qed
    moreover have "dom (allFiles st1) \<subseteq>
        dom (allFiles st) \<union> {(dirname ^^ i) q | i. 1 \<le> i \<and> i < Suc j}"
    proof
      fix p assume "p \<in> dom (allFiles st1)"
      with d1 d0 consider "p = dirname q" | "p \<in> dom (allFiles st)"
        | i where "1 \<le> i" "i < j" "p = (dirname ^^ i) (dirname q)" by blast
      then show "p \<in> dom (allFiles st) \<union> {(dirname ^^ i) q | i. 1 \<le> i \<and> i < Suc j}"
      proof cases
        case 1
        then have "p = (dirname ^^ 1) q \<and> 1 \<le> (1::nat) \<and> 1 < Suc j" using j1 by simp
        then show ?thesis by blast
      next
        case 2
        then show ?thesis by simp
      next
        case (3 i)
        then have "p = (dirname ^^ Suc i) q \<and> 1 \<le> Suc i \<and> Suc i < Suc j" unfolding sw by simp
        then show ?thesis by blast
      qed
    qed
    ultimately show ?thesis by blast
  qed
  from n g show ?case by blast
qed

lemma walk_fresh:
  assumes nc: "nextChild depth q st = Inr (r, st1)" and fresh: "allFiles st q = None"
  shows "allFiles st1 q = None"
proof (rule ccontr)
  assume "allFiles st1 q \<noteq> None"
  then have in1: "q \<in> dom (allFiles st1)" by auto
  from nc walk_first obtain j where fk: "firstKnown st q j"
    and d: "dom (allFiles st1) \<subseteq> dom (allFiles st) \<union> {(dirname ^^ i) q | i. 1 \<le> i \<and> i < j}"
    by blast
  from in1 d fresh obtain i where i: "1 \<le> i" "i < j" "q = (dirname ^^ i) q" by auto
  have "(dirname ^^ (i * (j div i) + j mod i)) q = (dirname ^^ (j mod i)) q"
    by (rule funpow_period) (use i in simp)
  then have eq: "(dirname ^^ j) q = (dirname ^^ (j mod i)) q" by simp
  from fk have k: "allFiles st ((dirname ^^ j) q) \<noteq> None"
    and mn: "\<And>k. 1 \<le> k \<Longrightarrow> k < j \<Longrightarrow> allFiles st ((dirname ^^ k) q) = None"
    by (auto simp: firstKnown_def)
  show False
  proof (cases "j mod i = 0")
    case True
    with eq k fresh show False by simp
  next
    case False
    then have "1 \<le> j mod i" by simp
    moreover have "j mod i < j" using i by (simp add: less_trans[OF mod_less_divisor])
    ultimately have "allFiles st ((dirname ^^ (j mod i)) q) = None" by (rule mn)
    with eq k show False by simp
  qed
qed

lemma linkedD:
  assumes "linked files st"
  shows "\<exists>r. allFiles st ''.'' = Some (Ref r) \<and> which (cells st r) = Directory files"
    and "allFiles st p = Some (Ref x) \<Longrightarrow> p \<noteq> ''.'' \<Longrightarrow> fileName (cells st x) = basename p"
    and "allFiles st p = Some (Ref x) \<Longrightarrow> p \<noteq> ''.'' \<Longrightarrow>
           \<exists>a l. allFiles st (dirname p) = Some (Ref a) \<and> which (cells st a) = Directory l \<and>
                 x \<in> set l"
    and "allFiles st p = Some (Ref a) \<Longrightarrow> which (cells st a) = Directory l \<Longrightarrow> x \<in> set l \<Longrightarrow>
           a < x"
proof -
  note c = assms[unfolded linked_def]
  from c show "\<exists>r. allFiles st ''.'' = Some (Ref r) \<and> which (cells st r) = Directory files"
    by (elim conjE)
  from c show "allFiles st p = Some (Ref x) \<Longrightarrow> p \<noteq> ''.'' \<Longrightarrow> fileName (cells st x) = basename p"
    by (elim conjE) fast
  from c show "allFiles st p = Some (Ref x) \<Longrightarrow> p \<noteq> ''.'' \<Longrightarrow>
           \<exists>a l. allFiles st (dirname p) = Some (Ref a) \<and> which (cells st a) = Directory l \<and>
                 x \<in> set l"
    by (elim conjE) fast
  from c show "allFiles st p = Some (Ref a) \<Longrightarrow> which (cells st a) = Directory l \<Longrightarrow>
           x \<in> set l \<Longrightarrow> a < x"
    by (elim conjE) fast
qed

lemma linked_frame:
  assumes l: "linked files st" and m: "allFiles st \<subseteq>\<^sub>m allFiles st1" and u: "untouched st st1"
    and new1: "\<And>p x. allFiles st1 p = Some (Ref x) \<Longrightarrow> allFiles st p = None \<Longrightarrow> p \<noteq> ''.'' \<Longrightarrow>
        fileName (cells st1 x) = basename p \<and>
        (\<exists>a k. allFiles st1 (dirname p) = Some (Ref a) \<and> which (cells st1 a) = Directory k \<and>
               x \<in> set k)"
    and new2: "\<And>p a k x. allFiles st1 p = Some (Ref a) \<Longrightarrow> allFiles st p = None \<Longrightarrow>
        which (cells st1 a) = Directory k \<Longrightarrow> x \<in> set k \<Longrightarrow> a < x"
  shows "linked files st1"
proof -
  have keep: "allFiles st1 p = Some h" if "allFiles st p = Some h" for p h
    using m that by (auto simp: map_le_def dom_def)
  have same: "cells st1 x = cells st x" if "allFiles st p = Some (Ref x)" for p x
    using u that by (simp add: untouched_def)
  have old: "allFiles st p = Some (Ref x)"
    if "allFiles st1 p = Some (Ref x)" "allFiles st p \<noteq> None" for p x
    using that keep[of p] by auto
  have 0: "\<exists>r. allFiles st1 ''.'' = Some (Ref r) \<and> which (cells st1 r) = Directory files"
  proof -
    from linkedD(1)[OF l] obtain r where
      r: "allFiles st ''.'' = Some (Ref r)" "which (cells st r) = Directory files" by blast
    from keep[OF r(1)] same[OF r(1)] r(2) show ?thesis by simp
  qed
  have 1: "fileName (cells st1 x) = basename p \<and>
        (\<exists>a k. allFiles st1 (dirname p) = Some (Ref a) \<and> which (cells st1 a) = Directory k \<and>
               x \<in> set k)"
    if r: "allFiles st1 p = Some (Ref x)" and ne: "p \<noteq> ''.''" for p x
  proof (cases "allFiles st p")
    case None
    from new1[OF r None ne] show ?thesis .
  next
    case (Some h)
    with old[OF r] have o: "allFiles st p = Some (Ref x)" by simp
    from linkedD(3)[OF l o ne] obtain a k where
      a: "allFiles st (dirname p) = Some (Ref a)" "which (cells st a) = Directory k" "x \<in> set k"
      by blast
    from linkedD(2)[OF l o ne] same[OF o] have "fileName (cells st1 x) = basename p" by simp
    moreover from keep[OF a(1)] same[OF a(1)] a(2,3)
    have "allFiles st1 (dirname p) = Some (Ref a) \<and> which (cells st1 a) = Directory k \<and> x \<in> set k"
      by simp
    ultimately show ?thesis by blast
  qed
  have 2: "a < x"
    if r: "allFiles st1 p = Some (Ref a)" and d: "which (cells st1 a) = Directory k"
      and x: "x \<in> set k" for p a k x
  proof (cases "allFiles st p")
    case None
    from new2[OF r None d x] show ?thesis .
  next
    case (Some h)
    with old[OF r] have o: "allFiles st p = Some (Ref a)" by simp
    from d same[OF o] have "which (cells st a) = Directory k" by simp
    from linkedD(4)[OF l o this x] show ?thesis .
  qed
  show ?thesis
    unfolding linked_def
  proof (intro conjI allI impI)
    show "\<exists>r. allFiles st1 ''.'' = Some (Ref r) \<and> which (cells st1 r) = Directory files" by (rule 0)
  next
    fix p x assume "allFiles st1 p = Some (Ref x) \<and> p \<noteq> ''.''"
    then show "fileName (cells st1 x) = basename p" using 1 by blast
  next
    fix p x assume "allFiles st1 p = Some (Ref x) \<and> p \<noteq> ''.''"
    then show "\<exists>a l. allFiles st1 (dirname p) = Some (Ref a) \<and> which (cells st1 a) = Directory l \<and>
               x \<in> set l" using 1 by blast
  next
    fix p a k x
    assume "allFiles st1 p = Some (Ref a) \<and> which (cells st1 a) = Directory k \<and> x \<in> set k"
    then show "a < x" using 2 by blast
  qed
qed

lemma linked_placed:
  assumes l: "linked files st"
  shows "allFiles st p = Some (Ref x) \<Longrightarrow> p \<noteq> ''.'' \<Longrightarrow> placed (cells st) files p x"
proof (induction x arbitrary: p rule: less_induct)
  case (less x)
  from linkedD(2)[OF l less.prems] have n: "fileName (cells st x) = basename p" .
  from linkedD(3)[OF l less.prems] obtain a k where
    a: "allFiles st (dirname p) = Some (Ref a)" "which (cells st a) = Directory k" "x \<in> set k"
    by blast
  show ?case
  proof (cases "dirname p = ''.''")
    case True
    from linkedD(1)[OF l] obtain r where
      r: "allFiles st ''.'' = Some (Ref r)" "which (cells st r) = Directory files" by blast
    with a True have "k = files" by simp
    with a(3) n True show ?thesis by (simp add: placed.top)
  next
    case False
    from linkedD(4)[OF l a] have "a < x" .
    from less.IH[OF this a(1) False] have "placed (cells st) files (dirname p) a" .
    from placed.sub[OF this a(2,3) n] show ?thesis .
  qed
qed


lemma walk_linked:
  "consistent st \<Longrightarrow> linked files st \<Longrightarrow>
   (nextChild depth q st = Inr ((h, e), st1) \<longrightarrow>
      linked files st1 \<and>
      (\<exists>x a l. h = Ref x \<and> allFiles st1 (dirname q) = Some (Ref a) \<and>
         which (cells st1 a) = Directory l \<and> x \<in> set l)) \<and>
   (getParent depth q st = Inr ((h, e), st1) \<longrightarrow> linked files st1)"
proof (induction depth arbitrary: q st h e st1)
  case 0
  show ?case by simp
next
  case (Suc depth)
  note c = Suc.prems(1) and lk = Suc.prems(2) and IH = Suc.IH
  have n: "linked files st1 \<and>
      (\<exists>x a l. h = Ref x \<and> allFiles st1 (dirname q) = Some (Ref a) \<and>
         which (cells st1 a) = Directory l \<and> x \<in> set l)"
    if nx: "nextChild (Suc depth) q st = Inr ((h, e), st1)"
  proof -
    obtain parent err st0 where
      g: "getParent depth q st = Inr ((parent, err), st0)"
      using nx by (cases "getParent depth q st") auto
    with nx have a: "afterGetParent q parent st0 = Inr ((h, e), st1)" by simp
    from IH[OF c lk, of q parent err st0] g have l0: "linked files st0" by blast
    from walk_consistent[OF c, of depth q parent err st0] g have
      ok: "err = None \<longrightarrow> consistent st0 \<and> allFiles st0 (dirname q) = Some parent" and
      bad: "err \<noteq> None \<longrightarrow> (\<exists>x. parent = Ref x \<and>
              (which (cells st0 x) = Regular [] \<or> which (cells st0 x) = Directory []))"
      by blast+
    have "err = None"
    proof (rule ccontr)
      assume "err \<noteq> None"
      with bad obtain x where "parent = Ref x"
        "which (cells st0 x) = Regular [] \<or> which (cells st0 x) = Directory []" by blast
      with afterGetParent_crash[OF this(2), of q] a show False by auto
    qed
    with ok have c0: "consistent st0" and reg: "allFiles st0 (dirname q) = Some parent"
      by simp_all
    from afterGetParent_consistent[OF c0 reg a] obtain b k x where
      af: "allFiles st1 = allFiles st0"
      and p: "parent = Ref b" and d: "which (cells st0 b) = Directory k" and x: "x \<in> set k"
      and h: "h = Ref x" and un: "\<forall>p. allFiles st0 p \<noteq> Some (Ref x)"
      and ce: "\<forall>y. y \<noteq> x \<longrightarrow> cells st1 y = cells st0 y"
      by blast
    have u: "untouched st0 st1"
      unfolding untouched_def using un ce by metis
    have l1: "linked files st1"
      by (rule linked_frame[OF l0 _ u]) (simp_all add: af)
    from reg p un have "b \<noteq> x" by auto
    with ce d have "which (cells st1 b) = Directory k" by simp
    with af reg p x h l1 show ?thesis by auto
  qed
  have g: "linked files st1" if gp: "getParent (Suc depth) q st = Inr ((h, e), st1)"
  proof (cases "allFiles st (dirname q)")
    case (Some ret)
    with gp have "st1 = st" by (simp_all add: Let_def)
    with lk show ?thesis by simp
  next
    case None
    obtain ret err st0 where
      nc: "nextChild depth (dirname q) st = Inr ((ret, err), st0)"
      using gp None by (cases "nextChild depth (dirname q) st") (auto simp: Let_def)
    from walk_consistent[OF c, of depth "dirname q" ret err st0] nc obtain x where
      c0: "consistent st0" and ret: "ret = Ref x"
      and lt: "x < brk st0" and un: "\<forall>p. allFiles st0 p \<noteq> Some (Ref x)"
      and cx: "cells st0 x = (if err = None
                 then \<lparr>fileName = basename (dirname q), which = Regular []\<rparr> else blank)"
      by blast
    from IH[OF c lk, of "dirname q" ret err st0] nc ret obtain a k where
      l0: "linked files st0"
      and pa: "allFiles st0 (dirname (dirname q)) = Some (Ref a)"
        "which (cells st0 a) = Directory k" "x \<in> set k"
      by auto
    from walk_fresh[OF nc None] have fr: "allFiles st0 (dirname q) = None" .
    show ?thesis
    proof (cases "err = None")
      case False
      with gp None nc have "st1 = st0" by (auto simp: Let_def)
      with l0 show ?thesis by simp
    next
      case True
      let ?n = "int32 (sizeAt (dirSizes st0) (dirname q))"
      obtain l err1 st2 where nd: "NewDirectory (Ref x) ?n st0 = Inr ((l, err1), st2)"
        using gp None nc True ret
        by (cases "NewDirectory (Ref x) ?n st0") (auto simp: Let_def)
      note f = NewDirectory_Inr[OF nd]
      have ce2: "\<And>y. y \<noteq> x \<Longrightarrow> cells st2 y = cells st0 y"
        using f by (cases "err1 = None") simp_all
      have fn2: "fileName (cells st2 x) = fileName (cells st0 x)"
        using f by (cases "err1 = None") simp_all
      have af2: "allFiles st2 = allFiles st0" using f by simp
      show ?thesis
      proof (cases "err1 = None")
        case False
        with gp None nc True ret nd have s1: "st1 = st2" by (auto simp: Let_def)
        have u: "untouched st0 st2"
          unfolding untouched_def using un ce2 by metis
        have "linked files st2"
          by (rule linked_frame[OF l0 _ u]) (simp_all add: af2)
        with s1 show ?thesis by simp
      next
        case e1: True
        with gp None nc True ret nd have
          s1: "st1 = st2\<lparr>allFiles := (allFiles st2)(dirname q \<mapsto> Ref x)\<rparr>"
          by (auto simp: Let_def)
        have af1: "allFiles st1 = (allFiles st0)(dirname q \<mapsto> Ref x)" using s1 af2 by simp
        have ce1: "\<And>y. y \<noteq> x \<Longrightarrow> cells st1 y = cells st0 y" using s1 ce2 by simp
        have m: "allFiles st0 \<subseteq>\<^sub>m allFiles st1"
          using af1 fr by (auto simp: map_le_def dom_def)
        have u: "untouched st0 st1"
          unfolding untouched_def using un ce1 by metis
        have wl: "which (cells st1 x) = Directory l" "l = [brk st0 ..< brk st0 + nat ?n]"
          using s1 f e1 by simp_all
        have fn1: "fileName (cells st1 x) = basename (dirname q)"
          using s1 fn2 cx True by simp
        have new: "p = dirname q \<and> y = x"
          if "allFiles st1 p = Some (Ref y)" "allFiles st0 p = None" for p y
          using that af1 by (auto split: if_splits)
        show ?thesis
        proof (rule linked_frame[OF l0 m u])
          fix p y assume r: "allFiles st1 p = Some (Ref y)" and o: "allFiles st0 p = None"
            and ne: "p \<noteq> ''.''"
          from new[OF r o] have py: "p = dirname q" "y = x" by simp_all
          from pa(1) fr have "dirname (dirname q) \<noteq> dirname q" by auto
          with af1 pa(1) have 1: "allFiles st1 (dirname (dirname q)) = Some (Ref a)" by simp
          from pa(1) un have "a \<noteq> x" by auto
          with ce1 pa(2) have 2: "which (cells st1 a) = Directory k" by simp
          from 1 2 pa(3) fn1 py
          show "fileName (cells st1 y) = basename p \<and>
            (\<exists>a k. allFiles st1 (dirname p) = Some (Ref a) \<and> which (cells st1 a) = Directory k \<and>
               y \<in> set k)" by blast
        next
          fix p b k' y
          assume r: "allFiles st1 p = Some (Ref b)" and o: "allFiles st0 p = None"
            and d: "which (cells st1 b) = Directory k'" and y: "y \<in> set k'"
          from new[OF r o] have "b = x" by simp
          with d wl have "k' = [brk st0 ..< brk st0 + nat ?n]" by simp
          with y lt \<open>b = x\<close> show "b < y" by simp
        qed
      qed
    qed
  qed
  from n g show ?case by blast
qed


lemma buildEntry_cells:
  assumes r: "buildEntry depth hdr st = Inr (None, st1)"
    and sup: "supportedTypeFlag hdr" and fresh: "allFiles st (Clean (Name hdr)) = None"
    and nc: "nextChild depth (Clean (Name hdr)) st = Inr ((Ref x, err), st0)"
  shows "allFiles st1 = (allFiles st0)(Clean (Name hdr) \<mapsto> Ref x) \<and>
         (\<forall>y. y \<noteq> x \<longrightarrow> cells st1 y = cells st0 y) \<and>
         fileName (cells st1 x) = fileName (cells st0 x) \<and>
         (\<forall>l z. which (cells st1 x) = Directory l \<longrightarrow> z \<in> set l \<longrightarrow> brk st0 \<le> z)"
proof -
  let ?name = "Clean (Name hdr)"
  let ?st2 = "st0\<lparr>allFiles := (allFiles st0)(?name \<mapsto> Ref x)\<rparr>"
  have err: "err = None"
    using r sup fresh nc by (auto simp: buildEntry_def Let_def split: if_splits)
  show ?thesis
  proof (cases "Typeflag hdr = TypeDir")
    case True
    let ?n = "int32 (sizeAt (dirSizes ?st2) ?name)"
    obtain l st3 where nd: "NewDirectory (Ref x) ?n ?st2 = Inr ((l, None), st3)" and s: "st1 = st3"
      using r sup fresh nc err True
      by (cases "NewDirectory (Ref x) ?n ?st2") (auto simp: buildEntry_def Let_def)
    note f = NewDirectory_Inr[OF nd]
    from f s have "which (cells st1 x) = Directory [brk st0 ..< brk st0 + nat ?n]" by simp
    then have "\<forall>l z. which (cells st1 x) = Directory l \<longrightarrow> z \<in> set l \<longrightarrow> brk st0 \<le> z" by simp
    with f s show ?thesis by simp
  next
    case nd: False
    show ?thesis
    proof (cases "Typeflag hdr = TypeSymlink")
      case True
      have ss: "SetSymlink (Ref x) (Linkname hdr) ?st2 = Inr (None, st1)"
        using r sup fresh nc err nd True by (simp add: buildEntry_def Let_def)
      note f = setter_frames(1)[OF ss] and g = setter_cells(1)[OF ss]
      from f g show ?thesis by simp
    next
      case ns: False
      with sup nd have reg: "Typeflag hdr = TypeReg" by (simp add: supportedTypeFlag_def)
      obtain b where b: "content hdr = Inr b"
        using r sup fresh nc err nd ns reg
        by (cases "content hdr") (auto simp: buildEntry_def Let_def)
      show ?thesis
      proof (cases "Perm (Mode hdr) AND execBits = 0")
        case True
        obtain e2 where ss: "SetRegular (Ref x) b ?st2 = Inr (e2, st1)"
          using r sup fresh nc err nd ns reg b True
          by (cases "SetRegular (Ref x) b ?st2") (auto simp: buildEntry_def Let_def)
        note f = setter_frames(2)[OF ss] and g = setter_cells(2)[OF ss]
        from f g show ?thesis by simp
      next
        case False
        obtain e2 where ss: "SetExecutable (Ref x) b ?st2 = Inr (e2, st1)"
          using r sup fresh nc err nd ns reg b False
          by (cases "SetExecutable (Ref x) b ?st2") (auto simp: buildEntry_def Let_def)
        note f = setter_frames(3)[OF ss] and g = setter_cells(3)[OF ss]
        from f g show ?thesis by simp
      qed
    qed
  qed
qed

lemma buildEntry_linked:
  assumes c: "consistent st" and lk: "linked files st"
    and r: "buildEntry depth hdr st = Inr (None, st1)"
  shows "linked files st1"
proof (cases "supportedTypeFlag hdr \<and> allFiles st (Clean (Name hdr)) = None")
  case False
  with r have "st1 = st" by (auto simp: buildEntry_def Let_def split: if_splits)
  with lk show ?thesis by simp
next
  case True
  let ?name = "Clean (Name hdr)"
  from True have sup: "supportedTypeFlag hdr" and fresh: "allFiles st ?name = None" by simp_all
  obtain this err st0 where nc: "nextChild depth ?name st = Inr ((this, err), st0)"
    using r True by (cases "nextChild depth ?name st") (auto simp: buildEntry_def Let_def)
  have err: "err = None"
    using r True nc by (auto simp: buildEntry_def Let_def split: if_splits)
  from walk_consistent[OF c, of depth ?name this err st0] nc err obtain x where
    c0: "consistent st0" and tR: "this = Ref x"
    and lt: "x < brk st0" and un: "\<forall>q. allFiles st0 q \<noteq> Some (Ref x)"
    and cx: "cells st0 x = \<lparr>fileName = basename ?name, which = Regular []\<rparr>"
    by auto
  from walk_linked[OF c lk, of depth ?name this err st0] nc tR obtain a k where
    l0: "linked files st0"
    and pa: "allFiles st0 (dirname ?name) = Some (Ref a)"
      "which (cells st0 a) = Directory k" "x \<in> set k"
    by auto
  from walk_fresh[OF nc fresh] have fr: "allFiles st0 ?name = None" .
  from buildEntry_cells[OF r sup fresh nc[unfolded tR]] have
    af1: "allFiles st1 = (allFiles st0)(?name \<mapsto> Ref x)"
    and ce1: "\<And>y. y \<noteq> x \<Longrightarrow> cells st1 y = cells st0 y"
    and fn: "fileName (cells st1 x) = fileName (cells st0 x)"
    and dl: "\<And>l z. which (cells st1 x) = Directory l \<Longrightarrow> z \<in> set l \<Longrightarrow> brk st0 \<le> z"
    by blast+
  have m: "allFiles st0 \<subseteq>\<^sub>m allFiles st1"
    using af1 fr by (auto simp: map_le_def dom_def)
  have u: "untouched st0 st1"
    unfolding untouched_def using un ce1 by metis
  have new: "p = ?name \<and> y = x"
    if "allFiles st1 p = Some (Ref y)" "allFiles st0 p = None" for p y
    using that af1 by (auto split: if_splits)
  show ?thesis
  proof (rule linked_frame[OF l0 m u])
    fix p y assume r: "allFiles st1 p = Some (Ref y)" and o: "allFiles st0 p = None"
      and ne: "p \<noteq> ''.''"
    from new[OF r o] have py: "p = ?name" "y = x" by simp_all
    from pa(1) fr have "dirname ?name \<noteq> ?name" by auto
    with af1 pa(1) have 1: "allFiles st1 (dirname ?name) = Some (Ref a)" by simp
    from pa(1) un have "a \<noteq> x" by auto
    with ce1 pa(2) have 2: "which (cells st1 a) = Directory k" by simp
    from fn cx have "fileName (cells st1 x) = basename ?name" by simp
    with 1 2 pa(3) py
    show "fileName (cells st1 y) = basename p \<and>
      (\<exists>a k. allFiles st1 (dirname p) = Some (Ref a) \<and> which (cells st1 a) = Directory k \<and>
         y \<in> set k)" by blast
  next
    fix p b k' y
    assume r: "allFiles st1 p = Some (Ref b)" and o: "allFiles st0 p = None"
      and d: "which (cells st1 b) = Directory k'" and y: "y \<in> set k'"
    from new[OF r o] have "b = x" by simp
    with dl[of k' y] d y lt show "b < y" by simp
  qed
qed

lemma buildEntries_linked:
  "consistent st \<Longrightarrow> linked files st \<Longrightarrow> buildEntries depth es st = Inr (None, st1) \<Longrightarrow>
     linked files st1"
proof (induction es arbitrary: st)
  case Nil
  then show ?case by simp
next
  case (Cons hdr rest)
  from buildEntries_Cons_None[OF Cons.prems(3)] obtain st0 where
    a: "buildEntry depth hdr st = Inr (None, st0)" and
    b: "buildEntries depth rest st0 = Inr (None, st1)" by blast
  from buildEntry_consistent[OF Cons.prems(1) a] have c0: "consistent st0" by simp
  from buildEntry_linked[OF Cons.prems(1,2) a] have l0: "linked files st0" .
  from Cons.IH[OF c0 l0 b] show ?case .
qed

lemma rooted_linked:
  assumes a: "NewArchive (initial sizes space) = ((ret, None), st1)"
    and f: "NewArchive_File st1 = ((root, None), st2)"
    and d: "NewDirectory root n st2 = Inr ((rootFiles, None), st3)"
  shows "linked rootFiles (st3\<lparr>allFiles := (allFiles st3)(''.'' \<mapsto> root)\<rparr>)"
proof -
  from a have 1: "allFiles st1 = Map.empty" "cells st1 = (\<lambda>a. blank)" "brk st1 = 0"
    by (auto simp: NewArchive_def initial_def alloc_def split: if_splits)
  from f 1 have 2: "root = Ref 0" "allFiles st2 = Map.empty" "cells st2 = (\<lambda>a. blank)" "brk st2 = 1"
    by (auto simp: NewArchive_File_def alloc_def split: if_splits)
  note g = NewDirectory_Inr[OF d[unfolded 2(1)]]
  define st where "st = st3\<lparr>allFiles := (allFiles st3)(''.'' \<mapsto> root)\<rparr>"
  have af: "allFiles st = [''.'' \<mapsto> Ref 0]" using g 2 by (simp add: st_def)
  have l: "rootFiles = [brk st2 ..< brk st2 + nat n]" using g by simp
  have c0: "cells st 0 = blank\<lparr>which := Directory rootFiles\<rparr>"
    using g 2 by (simp add: st_def)
  have reg: "q = ''.'' \<and> x = 0" if "allFiles st q = Some (Ref x)" for q x
    using that af by (auto split: if_splits)
  have "linked rootFiles st"
    unfolding linked_def
  proof (intro conjI allI impI)
    from af c0 have "allFiles st ''.'' = Some (Ref 0) \<and> which (cells st 0) = Directory rootFiles"
      by simp
    then show "\<exists>r. allFiles st ''.'' = Some (Ref r) \<and> which (cells st r) = Directory rootFiles" ..
  next
    fix p x assume "allFiles st p = Some (Ref x) \<and> p \<noteq> ''.''"
    with reg[of p x] show "fileName (cells st x) = basename p" by simp
  next
    fix p x assume "allFiles st p = Some (Ref x) \<and> p \<noteq> ''.''"
    with reg[of p x] show "\<exists>a l. allFiles st (dirname p) = Some (Ref a) \<and>
        which (cells st a) = Directory l \<and> x \<in> set l" by simp
  next
    fix p a k x
    assume h: "allFiles st p = Some (Ref a) \<and> which (cells st a) = Directory k \<and> x \<in> set k"
    with reg[of p a] have a0: "a = 0" by simp
    with h c0 have "k = rootFiles" by simp
    with h have "x \<in> set [brk st2 ..< brk st2 + nat n]" unfolding l by simp
    then have "brk st2 \<le> x" by simp
    with 2(4) a0 show "a < x" by simp
  qed
  then show ?thesis by (simp add: st_def)
qed

lemma buildArchive_tree:
  assumes "buildArchive depth space dockerImage = Inr ((files, None), st)"
  shows "\<exists>st0 st4. consistent st0 \<and> linked files st0 \<and> dom (allFiles st0) = {''.''} \<and>
           buildEntries depth (stream dockerImage) st0 = Inr (None, st4) \<and>
           cells st = cells st4 \<and> allFiles st = allFiles st4"
proof -
  from assms obtain sizes where s: "getDirSizes dockerImage = Inr sizes"
    by (auto simp: buildArchive_def split: sum.splits)
  obtain ret err st1 where a: "NewArchive (initial sizes space) = ((ret, err), st1)"
    by (metis prod.exhaust)
  obtain root err1 st2 where f: "NewArchive_File st1 = ((root, err1), st2)"
    by (metis prod.exhaust)
  from assms s a f have e: "err = None" "err1 = None"
    by (auto simp: buildArchive_def split: if_splits)
  let ?n = "int32 (sizeAt (dirSizes st2) ''.'')"
  from assms s a f e obtain rootFiles st3 st4 where
    d: "NewDirectory root ?n st2 = Inr ((rootFiles, None), st3)"
    and l: "buildLayers depth (layers dockerImage)
              (st3\<lparr>allFiles := (allFiles st3)(''.'' \<mapsto> root)\<rparr>) = Inr (None, st4)"
    and r: "finish (manifestPresent st4) rootFiles st4 = ((files, None), st)"
    by (auto simp: buildArchive_def split: sum.splits if_splits)
  let ?st0 = "st3\<lparr>allFiles := (allFiles st3)(''.'' \<mapsto> root)\<rparr>"
  from rooted_consistent[OF a[unfolded e] f[unfolded e] d]
  have "consistent ?st0" "dom (allFiles ?st0) = {''.''}" by simp_all
  moreover from r have fl: "files = rootFiles" by (auto simp: finish_def)
  from rooted_linked[OF a[unfolded e] f[unfolded e] d] fl have "linked files ?st0" by simp
  moreover from l have "buildEntries depth (stream dockerImage) ?st0 = Inr (None, st4)"
    by (simp add: buildLayers_stream stream_def)
  moreover from r have "cells st = cells st4" "allFiles st = allFiles st4"
    by (auto simp: finish_def)
  ultimately show ?thesis by blast
qed

text \<open>
  In a conversion that succeeds, an entry that is supported, whose path is not the root
  and is neither the path nor an ancestor of the path of an entry before it, is the
  one that creates the node the tree holds at its path.
\<close>

lemma first_entry_placed:
  assumes ok: "buildArchive depth space dockerImage = Inr ((files, None), st)"
    and pos: "stream dockerImage = before @ hdr # rest"
    and sup: "supportedTypeFlag hdr"
    and new: "Clean (Name hdr) \<notin> set (''.'' # reach depth before)"
  shows "\<exists>x. placed (cells st) files (Clean (Name hdr)) x \<and> storedAs hdr (cells st x) \<and>
             allFiles st (Clean (Name hdr)) = Some (Ref x)"
proof -
  from buildArchive_tree[OF ok] pos obtain st0 st4 where
    c0: "consistent st0" and l0: "linked files st0" and d0: "dom (allFiles st0) = {''.''}"
    and b: "buildEntries depth (before @ hdr # rest) st0 = Inr (None, st4)"
    and ce: "cells st = cells st4" and af: "allFiles st = allFiles st4"
    by auto
  from buildEntries_linked[OF c0 l0 b] have l4: "linked files st4" .
  from buildEntries_append_None[OF b] obtain sta where
    b1: "buildEntries depth before st0 = Inr (None, sta)" and
    b2: "buildEntries depth (hdr # rest) sta = Inr (None, st4)" by blast
  from buildEntries_consistent[OF c0 b1] have ca: "consistent sta" by simp
  from buildEntries_dom[OF b1] d0 new have "Clean (Name hdr) \<notin> dom (allFiles sta)" by auto
  then have fresh: "allFiles sta (Clean (Name hdr)) = None" by auto
  from created_survives[OF ca b2 sup fresh] obtain x where
    x: "allFiles st4 (Clean (Name hdr)) = Some (Ref x)" "storedAs hdr (cells st4 x)" by blast
  from new have "Clean (Name hdr) \<noteq> ''.''" by simp
  from linked_placed[OF l4 x(1) this] x ce af show ?thesis by auto
qed


section \<open>The state in which the loop starts\<close>

lemma start_rootOnly:
  assumes n: "0 \<le> n" and sp: "5 + listWords (nat n) \<le> space"
  shows "NewArchive (initial sizes space) = (([], None), (initial sizes space)\<lparr>room := space - 1\<rparr>)"
    and "NewArchive_File ((initial sizes space)\<lparr>room := space - 1\<rparr>)
           = ((Ref 0, None), (initial sizes space)\<lparr>room := space - 5, brk := Suc 0\<rparr>)"
    and "\<exists>st3. NewDirectory (Ref 0) n ((initial sizes space)\<lparr>room := space - 5, brk := Suc 0\<rparr>)
           = Inr (([Suc 0 ..< Suc 0 + nat n], None), st3) \<and>
         st3\<lparr>allFiles := (allFiles st3)(''.'' \<mapsto> Ref 0)\<rparr>
           = rootOnly sizes (nat n) (space - 5 - listWords (nat n))"
proof -
  from sp show "NewArchive (initial sizes space)
      = (([], None), (initial sizes space)\<lparr>room := space - 1\<rparr>)"
    by (simp add: NewArchive_def alloc_def initial_def)
  from sp show "NewArchive_File ((initial sizes space)\<lparr>room := space - 1\<rparr>)
           = ((Ref 0, None), (initial sizes space)\<lparr>room := space - 5, brk := Suc 0\<rparr>)"
    by (simp add: NewArchive_File_def alloc_def initial_def)
  from n sp show "\<exists>st3. NewDirectory (Ref 0) n ((initial sizes space)\<lparr>room := space - 5, brk := Suc 0\<rparr>)
           = Inr (([Suc 0 ..< Suc 0 + nat n], None), st3) \<and>
         st3\<lparr>allFiles := (allFiles st3)(''.'' \<mapsto> Ref 0)\<rparr>
           = rootOnly sizes (nat n) (space - 5 - listWords (nat n))"
    by (simp add: NewDirectory_def alloc_def initial_def setWhich_def rootOnly_def blank_def Let_def
        del: upt_Suc)
qed

lemma buildArchive_loop:
  assumes p1: "getDirSizes dockerImage = Inr sizes" and seek: "seekErr dockerImage = None"
    and n: "0 \<le> int32 (sizeAt sizes ''.'')"
    and sp: "5 + listWords (nat (int32 (sizeAt sizes ''.''))) \<le> space"
  shows "buildArchive depth space dockerImage =
     (case buildEntries depth (stream dockerImage)
             (rootOnly sizes (nat (int32 (sizeAt sizes ''.'')))
                (space - 5 - listWords (nat (int32 (sizeAt sizes ''.''))))) of
        Inl c \<Rightarrow> Inl c
      | Inr (err, st4) \<Rightarrow>
          if err \<noteq> None then Inr (([], err), st4)
          else Inr (finish (manifestPresent st4)
                      [Suc 0 ..< Suc 0 + nat (int32 (sizeAt sizes ''.''))] st4))"
proof -
  let ?n = "int32 (sizeAt sizes ''.'')"
  note s = start_rootOnly[OF n sp, of sizes]
  from s(3) obtain st3 where
    d: "NewDirectory (Ref 0) ?n ((initial sizes space)\<lparr>room := space - 5, brk := Suc 0\<rparr>)
           = Inr (([Suc 0 ..< Suc 0 + nat ?n], None), st3)"
    and r: "st3\<lparr>allFiles := (allFiles st3)(''.'' \<mapsto> Ref 0)\<rparr>
           = rootOnly sizes (nat ?n) (space - 5 - listWords (nat ?n))"
    by blast
  have ds: "dirSizes ((initial sizes space)\<lparr>room := space - 5, brk := Suc 0\<rparr>) = sizes"
    by (simp add: initial_def)
  show ?thesis
    unfolding buildArchive_def p1 sum.case s(1) prod.case seek s(2) ds d r buildLayers_stream
      stream_def
    by simp
qed


section \<open>Pass 1 against the reference tally\<close>

lemma Type_distinct:
  "TypeDir \<noteq> TypeReg" "TypeDir \<noteq> TypeSymlink" "TypeReg \<noteq> TypeSymlink"
  by (simp_all add: TypeDir_def TypeReg_def TypeSymlink_def)

lemma spec_classify_supported: "(spec_classify e \<noteq> KUnsupported) = supportedTypeFlag e"
  by (auto simp: spec_classify_def supportedTypeFlag_def)

lemma countEntry_unsupported: "\<not> supportedTypeFlag hdr \<Longrightarrow> countEntry hdr m = m"
  by (simp add: countEntry_def supportedTypeFlag_def Let_def)

lemma countEntry_tallyStep:
  assumes "supportedTypeFlag hdr"
  shows "countEntry hdr (asInts t) = asInts (spec_tallyStep t hdr)"
proof (rule ext)
  fix k
  show "countEntry hdr (asInts t) k = asInts (spec_tallyStep t hdr) k"
    using assms Type_distinct
    by (cases "Typeflag hdr = TypeDir")
       (auto simp: countEntry_def spec_tallyStep_def spec_classify_def supportedTypeFlag_def
          Let_def sizeAt_def asInts_def split: option.splits)
qed

lemma countEntries_tally:
  "countEntries es (asInts t) =
     asInts (foldl spec_tallyStep t (filter (\<lambda>e. spec_classify e \<noteq> KUnsupported) es))"
proof (induction es arbitrary: t)
  case Nil
  show ?case by simp
next
  case (Cons hdr rest)
  show ?case
  proof (cases "supportedTypeFlag hdr")
    case True
    then show ?thesis
      using Cons.IH[of "spec_tallyStep t hdr"]
      by (simp add: countEntry_tallyStep spec_classify_supported)
  next
    case False
    then show ?thesis
      using Cons.IH[of t] by (simp add: countEntry_unsupported spec_classify_supported)
  qed
qed

lemma countEntries_append:
  "countEntries (xs @ ys) m = countEntries ys (countEntries xs m)"
  by (induction xs arbitrary: m) simp_all

lemma countLayers_iff:
  "countLayers ls m = Inr m' \<longleftrightarrow>
     list_all (\<lambda>l. tarErr l = None) ls \<and> m' = countEntries (concat (map entries ls)) m"
  by (induction ls arbitrary: m) (auto simp: Let_def countEntries_append split: option.splits)

text \<open>
  C7. Pass 1 returns a map exactly when no traversal reports an error, and the map is
  then the reference tally of the entries in layer order: a supported directory entry
  first makes its own path present with count zero, and every supported entry adds one
  to the count of its parent path.
\<close>

theorem child_count_accounting:
  "getDirSizes dockerImage = Inr sizes \<longleftrightarrow>
     list_all (\<lambda>l. tarErr l = None) (layers dockerImage) \<and> layerErr dockerImage = None \<and>
     sizes = asInts (spec_tally (stream dockerImage))"
proof -
  have e: "Map.empty = asInts Map.empty" by (simp add: asInts_def)
  have t: "countEntries (stream dockerImage) Map.empty = asInts (spec_tally (stream dockerImage))"
    unfolding spec_tally_def by (subst e) (rule countEntries_tally)
  show ?thesis
  proof (cases "countLayers (layers dockerImage) Map.empty")
    case (Inl c)
    with countLayers_iff[of "layers dockerImage" Map.empty]
    have "\<not> list_all (\<lambda>l. tarErr l = None) (layers dockerImage)" by auto
    with Inl show ?thesis by (simp add: getDirSizes_def)
  next
    case (Inr m)
    with countLayers_iff[of "layers dockerImage" Map.empty m] t
    have "list_all (\<lambda>l. tarErr l = None) (layers dockerImage)"
      and "m = asInts (spec_tally (stream dockerImage))"
      by (simp_all add: stream_def)
    with Inr show ?thesis by (auto simp: getDirSizes_def split: option.splits)
  qed
qed


theorem child_count_accounting_witness:
  "getDirSizes
     (imageOf [[tarEntry ''a'' TypeDir 493 [] [], tarEntry ''a/b'' TypeReg 420 [] [1, 2]],
               [tarEntry ''a/c'' TypeSymlink 511 ''b'' [], tarEntry ''a/n'' (CHR ''3'') 420 [] [],
                tarEntry ''e/'' TypeDir 493 [] []]])
   = Inr (asInts (spec_tally (stream
     (imageOf [[tarEntry ''a'' TypeDir 493 [] [], tarEntry ''a/b'' TypeReg 420 [] [1, 2]],
               [tarEntry ''a/c'' TypeSymlink 511 ''b'' [], tarEntry ''a/n'' (CHR ''3'') 420 [] [],
                tarEntry ''e/'' TypeDir 493 [] []]])))) \<and>
   map (spec_tally (stream
     (imageOf [[tarEntry ''a'' TypeDir 493 [] [], tarEntry ''a/b'' TypeReg 420 [] [1, 2]],
               [tarEntry ''a/c'' TypeSymlink 511 ''b'' [], tarEntry ''a/n'' (CHR ''3'') 420 [] [],
                tarEntry ''e/'' TypeDir 493 [] []]])))
     [''.'', ''a'', ''e'', ''a/b''] = [Some 2, Some 2, Some 0, None]"
proof -
  let ?i = "imageOf [[tarEntry ''a'' TypeDir 493 [] [], tarEntry ''a/b'' TypeReg 420 [] [1, 2]],
               [tarEntry ''a/c'' TypeSymlink 511 ''b'' [], tarEntry ''a/n'' (CHR ''3'') 420 [] [],
                tarEntry ''e/'' TypeDir 493 [] []]]"
  have "list_all (\<lambda>l. tarErr l = None) (layers ?i) \<and> layerErr ?i = None"
    by (simp add: imageOf_def)
  with child_count_accounting[of ?i "asInts (spec_tally (stream ?i))"]
  have "getDirSizes ?i = Inr (asInts (spec_tally (stream ?i)))" by simp
  moreover have "map (spec_tally (stream ?i)) [''.'', ''a'', ''e'', ''a/b'']
                   = [Some 2, Some 2, Some 0, None]"
    by code_simp
  ultimately show ?thesis by (rule conjI)
qed

section \<open>Unsupported entries\<close>

lemma countEntries_supported:
  "countEntries (filter supportedTypeFlag es) m = countEntries es m"
  by (induction es arbitrary: m) (simp_all add: countEntry_unsupported)

lemma buildEntries_supported:
  "buildEntries depth (filter supportedTypeFlag es) st = buildEntries depth es st"
  by (induction es arbitrary: st) (simp_all add: buildEntry_unsupported split: sum.splits)

lemma countLayers_supported:
  "countLayers (map (\<lambda>l. l\<lparr>entries := filter supportedTypeFlag (entries l)\<rparr>) ls) m
     = countLayers ls m"
  by (induction ls arbitrary: m)
     (simp_all add: countEntries_supported Let_def split: option.splits)

lemma buildLayers_supported:
  "buildLayers depth (map (\<lambda>l. l\<lparr>entries := filter supportedTypeFlag (entries l)\<rparr>) ls) st
     = buildLayers depth ls st"
  by (induction ls arbitrary: st) (simp_all add: buildEntries_supported split: sum.splits)

lemma getDirSizes_supported: "getDirSizes (supportedOnly dockerImage) = getDirSizes dockerImage"
  by (simp add: getDirSizes_def supportedOnly_def countLayers_supported
      split: sum.splits option.splits)

lemma buildArchive_supported:
  "buildArchive depth space (supportedOnly dockerImage) = buildArchive depth space dockerImage"
proof -
  have a: "layers (supportedOnly dockerImage) =
      map (\<lambda>l. l\<lparr>entries := filter supportedTypeFlag (entries l)\<rparr>) (layers dockerImage)"
    and b: "seekErr (supportedOnly dockerImage) = seekErr dockerImage"
    by (simp_all add: supportedOnly_def)
  show ?thesis
    unfolding buildArchive_def getDirSizes_supported a b buildLayers_supported by (rule refl)
qed

text \<open>
  C6. An entry whose type flag is none of directory, regular file and symlink leaves
  the count map of pass 1 as it is, and in pass 2 the loop goes on with the state
  unchanged (no node, no slot, no error); pass 1 and the whole conversion give on an
  image what they give on the image without its unsupported entries.
\<close>

theorem unsupported_excluded:
  "(\<not> supportedTypeFlag hdr \<longrightarrow>
      countEntry hdr sizes = sizes \<and> buildEntry depth hdr st = Inr (None, st)) \<and>
   getDirSizes (supportedOnly dockerImage) = getDirSizes dockerImage \<and>
   buildArchive depth space (supportedOnly dockerImage) = buildArchive depth space dockerImage"
  by (simp add: countEntry_unsupported buildEntry_unsupported getDirSizes_supported
      buildArchive_supported)

theorem unsupported_excluded_witness:
  "countEntry (tarEntry ''dev/null'' (CHR ''3'') 438 [] []) Map.empty = Map.empty \<and>
   buildEntry 4 (tarEntry ''dev/null'' (CHR ''3'') 438 [] []) (initial Map.empty 0)
     = Inr (None, initial Map.empty 0) \<and>
   getDirSizes (imageOf [[tarEntry ''dev'' TypeDir 493 [] []]]) =
     getDirSizes (imageOf [[tarEntry ''dev'' TypeDir 493 [] [],
                            tarEntry ''dev/null'' (CHR ''3'') 438 [] []]]) \<and>
   buildArchive 4 100 (imageOf [[tarEntry ''dev'' TypeDir 493 [] []]]) =
     buildArchive 4 100 (imageOf [[tarEntry ''dev'' TypeDir 493 [] [],
                                   tarEntry ''dev/null'' (CHR ''3'') 438 [] []]])"
proof -
  let ?h = "tarEntry ''dev/null'' (CHR ''3'') 438 [] []"
  let ?i = "imageOf [[tarEntry ''dev'' TypeDir 493 [] [], ?h]]"
  have u: "\<not> supportedTypeFlag ?h"
    by (simp add: supportedTypeFlag_def tarEntry_def TypeDir_def TypeReg_def TypeSymlink_def)
  have s: "supportedOnly ?i = imageOf [[tarEntry ''dev'' TypeDir 493 [] []]]"
    by (simp add: supportedOnly_def imageOf_def supportedTypeFlag_def tarEntry_def
        TypeDir_def TypeReg_def TypeSymlink_def)
  from unsupported_excluded[of ?h Map.empty 4 "initial Map.empty 0" ?i 100] u s
  show ?thesis by simp
qed

section \<open>The first writer of a path\<close>

lemma firstWriters_build:
  "set seen \<subseteq> dom (allFiles st) \<Longrightarrow>
     buildEntries depth (firstWriters seen es) st = buildEntries depth es st"
proof (induction es arbitrary: seen st)
  case Nil
  show ?case by simp
next
  case (Cons hdr rest)
  show ?case
  proof (cases "supportedTypeFlag hdr")
    case False
    then have "buildEntry depth hdr st = Inr (None, st)" by (simp add: buildEntry_def)
    with False Cons.IH[OF Cons.prems] show ?thesis by simp
  next
    case True
    show ?thesis
    proof (cases "Clean (Name hdr) \<in> set seen")
      case True
      with Cons.prems obtain this where "allFiles st (Clean (Name hdr)) = Some this" by auto
      then have "buildEntry depth hdr st = Inr (None, st)" by (rule buildEntry_skip)
      with True \<open>supportedTypeFlag hdr\<close> Cons.IH[OF Cons.prems] show ?thesis by simp
    next
      case False
      have "buildEntries depth rest st1 =
              buildEntries depth (firstWriters (Clean (Name hdr) # seen) rest) st1"
        if "buildEntry depth hdr st = Inr (None, st1)" for st1
      proof -
        from buildEntry_allFiles[OF that] Cons.prems
        have "set seen \<subseteq> dom (allFiles st1)" by (auto simp: map_le_def dom_def)
        with buildEntry_registers[OF that True]
        have "set (Clean (Name hdr) # seen) \<subseteq> dom (allFiles st1)" by simp
        from Cons.IH[OF this] show ?thesis by simp
      qed
      with False True show ?thesis by (auto split: sum.splits)
    qed
  qed
qed

text \<open>
  C3. Pass 2 over the layers of an image does what it does over the entries that are
  the first supported ones of their normalized path, in layer order: every later entry
  of a path is skipped, whatever its kind. An entry whose path the name index holds
  leaves the state as it is. And in a conversion that succeeds, the tree holds at the
  path of a supported entry the node stored for that entry, whatever entries follow it,
  when its path is not the root and is neither the path nor an ancestor of the path of
  an entry before it; it is also the node the name index holds for the path.
\<close>

theorem first_writer_wins:
  "buildLayers depth (layers dockerImage) st =
     buildEntries depth (firstWriters [] (stream dockerImage)) st \<and>
   (allFiles st (Clean (Name hdr)) \<noteq> None \<longrightarrow> buildEntry depth hdr st = Inr (None, st)) \<and>
   (buildArchive depth space dockerImage = Inr ((files, None), st1) \<and>
    stream dockerImage = before @ hdr # rest \<and> supportedTypeFlag hdr \<and>
    Clean (Name hdr) \<notin> set (''.'' # reach depth before) \<longrightarrow>
      (\<exists>x. placed (cells st1) files (Clean (Name hdr)) x \<and> storedAs hdr (cells st1 x) \<and>
           nodeOf st1 (Clean (Name hdr)) = Some (cells st1 x)))"
proof -
  have "buildLayers depth (layers dockerImage) st =
     buildEntries depth (firstWriters [] (stream dockerImage)) st"
    using firstWriters_build[of "[]" st depth "stream dockerImage"]
    by (simp add: buildLayers_stream stream_def)
  moreover have "allFiles st (Clean (Name hdr)) \<noteq> None \<longrightarrow>
      buildEntry depth hdr st = Inr (None, st)"
    by (auto simp: buildEntry_skip)
  moreover have "\<exists>x. placed (cells st1) files (Clean (Name hdr)) x \<and> storedAs hdr (cells st1 x) \<and>
           nodeOf st1 (Clean (Name hdr)) = Some (cells st1 x)"
    if "buildArchive depth space dockerImage = Inr ((files, None), st1)"
      "stream dockerImage = before @ hdr # rest" "supportedTypeFlag hdr"
      "Clean (Name hdr) \<notin> set (''.'' # reach depth before)"
    using first_entry_placed[OF that] by (auto simp: nodeOf_eq)
  ultimately show ?thesis by blast
qed

theorem first_writer_wins_witness:
  "buildLayers 4
     (layers (imageOf [[tarEntry ''a'' TypeDir 493 [] [], tarEntry ''a/b'' TypeReg 420 [] [1, 2, 3]],
                       [tarEntry ''a/b'' TypeDir 493 [] []]]))
     ((initial Map.empty 100)\<lparr>allFiles := [''a/b'' \<mapsto> Ref 2]\<rparr>)
   = buildEntries 4 [tarEntry ''a'' TypeDir 493 [] [], tarEntry ''a/b'' TypeReg 420 [] [1, 2, 3]]
       ((initial Map.empty 100)\<lparr>allFiles := [''a/b'' \<mapsto> Ref 2]\<rparr>) \<and>
   buildEntry 4 (tarEntry ''a/b'' TypeReg 420 [] [1, 2, 3])
       ((initial Map.empty 100)\<lparr>allFiles := [''a/b'' \<mapsto> Ref 2]\<rparr>)
   = Inr (None, (initial Map.empty 100)\<lparr>allFiles := [''a/b'' \<mapsto> Ref 2]\<rparr>) \<and>
   (\<exists>files st.
      buildArchive 4 100
        (imageOf [[tarEntry ''a'' TypeDir 493 [] [], tarEntry ''a/b'' TypeReg 420 [] [1, 2, 3]],
                  [tarEntry ''a/b'' TypeDir 493 [] []]]) = Inr ((files, None), st) \<and>
      fileAt (cells st) files [''a'', ''b''] = Some \<lparr>fileName = ''b'', which = Regular [1, 2, 3]\<rparr> \<and>
      nodeOf st ''a/b'' = Some \<lparr>fileName = ''b'', which = Regular [1, 2, 3]\<rparr> \<and>
      (\<exists>x. placed (cells st) files ''a/b'' x \<and>
           storedAs (tarEntry ''a/b'' TypeReg 420 [] [1, 2, 3]) (cells st x) \<and>
           cells st x = \<lparr>fileName = ''b'', which = Regular [1, 2, 3]\<rparr>))"
proof -
  let ?a = "tarEntry ''a'' TypeDir 493 [] []"
  let ?h = "tarEntry ''a/b'' TypeReg 420 [] [1, 2, 3]"
  let ?d = "tarEntry ''a/b'' TypeDir 493 [] []"
  let ?i = "imageOf [[?a, ?h], [?d]]"
  let ?st = "(initial Map.empty 100)\<lparr>allFiles := [''a/b'' \<mapsto> Ref 2]\<rparr>"
  have f: "firstWriters [] (stream ?i) = [?a, ?h]"
    by (simp add: stream_def imageOf_def tarEntry_def supportedTypeFlag_def TypeDir_def
        TypeReg_def TypeSymlink_def Clean_def Separator_def)
  have n: "Clean (Name ?h) = ''a/b''"
    by (simp add: tarEntry_def Clean_def Separator_def)
  have "(case buildArchive 4 100 ?i of
      Inl c \<Rightarrow> False
    | Inr ((files, err), st) \<Rightarrow>
        err = None \<and>
        fileAt (cells st) files [''a'', ''b'']
          = Some \<lparr>fileName = ''b'', which = Regular [1, 2, 3]\<rparr> \<and>
        nodeOf st ''a/b'' = Some \<lparr>fileName = ''b'', which = Regular [1, 2, 3]\<rparr>)"
    by code_simp
  then obtain files st1 where
    ok: "buildArchive 4 100 ?i = Inr ((files, None), st1)"
    and fa: "fileAt (cells st1) files [''a'', ''b'']
          = Some \<lparr>fileName = ''b'', which = Regular [1, 2, 3]\<rparr>"
    and no: "nodeOf st1 ''a/b'' = Some \<lparr>fileName = ''b'', which = Regular [1, 2, 3]\<rparr>"
    by (auto split: sum.splits)
  have p: "stream ?i = [?a] @ ?h # [?d]" by (simp add: stream_def imageOf_def)
  have s: "supportedTypeFlag ?h" by (simp add: supportedTypeFlag_def tarEntry_def)
  have r: "Clean (Name ?h) \<notin> set (''.'' # reach 4 [?a])" by code_simp
  note t = first_writer_wins[of 4 ?i ?st ?h 100 files st1 "[?a]" "[?d]"]
  from t f have 1: "buildLayers 4 (layers ?i) ?st = buildEntries 4 [?a, ?h] ?st" by simp
  from t n have 2: "buildEntry 4 ?h ?st = Inr (None, ?st)" by simp
  from t ok p s r have "\<exists>x. placed (cells st1) files (Clean (Name ?h)) x \<and>
      storedAs ?h (cells st1 x) \<and> nodeOf st1 (Clean (Name ?h)) = Some (cells st1 x)" by blast
  then obtain x where x: "placed (cells st1) files (Clean (Name ?h)) x"
    "storedAs ?h (cells st1 x)" "nodeOf st1 (Clean (Name ?h)) = Some (cells st1 x)" by blast
  from x(3) no have cx: "cells st1 x = \<lparr>fileName = ''b'', which = Regular [1, 2, 3]\<rparr>"
    by (simp only: n) simp
  from x(1) have px: "placed (cells st1) files ''a/b'' x" by (simp only: n)
  have 3: "\<exists>x. placed (cells st1) files ''a/b'' x \<and> storedAs ?h (cells st1 x) \<and>
           cells st1 x = \<lparr>fileName = ''b'', which = Regular [1, 2, 3]\<rparr>"
    by (rule exI[of _ x]) (intro conjI px x(2) cx)
  have 4: "\<exists>files st.
      buildArchive 4 100 ?i = Inr ((files, None), st) \<and>
      fileAt (cells st) files [''a'', ''b''] = Some \<lparr>fileName = ''b'', which = Regular [1, 2, 3]\<rparr> \<and>
      nodeOf st ''a/b'' = Some \<lparr>fileName = ''b'', which = Regular [1, 2, 3]\<rparr> \<and>
      (\<exists>x. placed (cells st) files ''a/b'' x \<and> storedAs ?h (cells st x) \<and>
           cells st x = \<lparr>fileName = ''b'', which = Regular [1, 2, 3]\<rparr>)"
    by (rule exI[of _ files], rule exI[of _ st1]) (intro conjI ok fa no 3)
  from 1 2 4 show ?thesis by (intro conjI)
qed

text \<open>
  Without these restrictions the statement fails. With \<^verbatim>\<open>a/b/c\<close> before a regular file
  \<^verbatim>\<open>a/b\<close>, a directory \<^verbatim>\<open>a/b\<close> and a directory \<^verbatim>\<open>a\<close>, the conversion succeeds,
  the path \<^verbatim>\<open>a/b\<close> occurs twice, neither occurrence creates a node, and the tree
  holds at \<^verbatim>\<open>a/b\<close> the directory that the first entry made for its parent. And with
  only a regular file \<^verbatim>\<open>a/b\<close> in one layer and a directory \<^verbatim>\<open>a/b\<close> in the next, the
  directory \<^verbatim>\<open>a\<close> was counted nowhere and the conversion ends in the panic of the
  list access: there is no merged tree.
\<close>

theorem first_writer_counterexample:
  "(case buildArchive 8 100
       (imageOf [[tarEntry ''a/b/c'' TypeReg 420 [] [1]], [tarEntry ''a/b'' TypeReg 420 [] [2]],
                 [tarEntry ''a/b'' TypeDir 493 [] []], [tarEntry ''a'' TypeDir 493 [] []]]) of
      Inl c \<Rightarrow> False
    | Inr ((files, err), st) \<Rightarrow>
        err = None \<and>
        fileAt (cells st) files [''a'', ''b'']
          = Some \<lparr>fileName = ''b'', which = Directory [4]\<rparr> \<and>
        nodeOf st ''a/b'' = Some \<lparr>fileName = ''b'', which = Directory [4]\<rparr> \<and>
        map (cells st) [0 ..< brk st] =
          [\<lparr>fileName = [], which = Directory [1]\<rparr>,
           \<lparr>fileName = ''a'', which = Directory [2, 3]\<rparr>,
           \<lparr>fileName = ''b'', which = Directory [4]\<rparr>,
           \<lparr>fileName = [], which = Regular []\<rparr>,
           \<lparr>fileName = ''c'', which = Regular [1]\<rparr>]) \<and>
   (case buildArchive 8 100
       (imageOf [[tarEntry ''a/b'' TypeReg 420 [] [2]], [tarEntry ''a/b'' TypeDir 493 [] []]]) of
      Inl c \<Rightarrow> c = PanicOutOfBounds
    | Inr r \<Rightarrow> False)"
  by code_simp


section \<open>The manifest check\<close>

lemma finish_tree:
  "fst (finish ok rootFiles st) = (rootFiles, None) \<and>
   cells (snd (finish ok rootFiles st)) = cells st \<and>
   brk (snd (finish ok rootFiles st)) = brk st \<and>
   allFiles (snd (finish ok rootFiles st)) = allFiles st \<and>
   stderr (snd (finish ok rootFiles st)) = stderr st @ (if ok then [] else [manifestWarning])"
  by (simp add: finish_def)

lemma buildArchive_success:
  assumes "buildArchive depth space dockerImage = Inr ((files, None), st)"
  shows "\<exists>st4. stderr st4 = [] \<and> finish (manifestPresent st4) files st4 = ((files, None), st)"
proof -
  from assms obtain sizes where s: "getDirSizes dockerImage = Inr sizes"
    by (auto simp: buildArchive_def split: sum.splits)
  obtain ret err st1 where a: "NewArchive (initial sizes space) = ((ret, err), st1)"
    by (metis prod.exhaust)
  obtain root err1 st2 where f: "NewArchive_File st1 = ((root, err1), st2)"
    by (metis prod.exhaust)
  from a have e1: "stderr st1 = []"
    by (auto simp: NewArchive_def initial_def split: option.splits dest!: alloc_frame)
  from f e1 have e2: "stderr st2 = []"
    by (auto simp: NewArchive_File_def split: option.splits dest!: alloc_frame)
  from assms s a f obtain rootFiles st3 st4 where
    d: "NewDirectory root (int32 (sizeAt (dirSizes st2) ''.'')) st2
          = Inr ((rootFiles, None), st3)"
    and l: "buildLayers depth (layers dockerImage)
              (st3\<lparr>allFiles := (allFiles st3)(''.'' \<mapsto> root)\<rparr>) = Inr (None, st4)"
    and r: "finish (manifestPresent st4) rootFiles st4 = ((files, None), st)"
    by (auto simp: buildArchive_def split: sum.splits if_splits)
  from NewDirectory_frame[OF d] e2 buildLayers_stderr[OF l] have "stderr st4 = []" by simp
  moreover from r have "rootFiles = files" by (simp add: finish_def)
  ultimately show ?thesis using r by auto
qed

text \<open>
  C8. When the conversion succeeds, the warning is on the standard error exactly when
  the name index does not hold the path \<^verbatim>\<open>sandstorm-manifest\<close>, and nothing else is;
  the archive returned and the message are those the end of the function gives
  whatever the outcome \<open>ok\<close> of the lookup is.
\<close>

theorem manifest_check_effect_free:
  assumes "buildArchive depth space dockerImage = Inr ((files, None), st)"
  shows "stderr st = (if manifestName \<in> dom (allFiles st) then [] else [manifestWarning]) \<and>
         (\<exists>st4. finish (manifestPresent st4) files st4 = ((files, None), st) \<and>
            manifestPresent st4 = (manifestName \<in> dom (allFiles st4)) \<and>
            (\<forall>ok. fst (finish ok files st4) = (files, None) \<and>
                  cells (snd (finish ok files st4)) = cells st \<and>
                  brk (snd (finish ok files st4)) = brk st \<and>
                  allFiles (snd (finish ok files st4)) = allFiles st))"
proof -
  from buildArchive_success[OF assms] obtain st4 where
    e: "stderr st4 = []" and r: "finish (manifestPresent st4) files st4 = ((files, None), st)"
    by blast
  from r have st: "st = snd (finish (manifestPresent st4) files st4)" by simp
  have p: "manifestPresent st4 = (manifestName \<in> dom (allFiles st4))"
    by (auto simp: manifestPresent_def)
  from st e p
  have "stderr st = (if manifestName \<in> dom (allFiles st) then [] else [manifestWarning])"
    by (simp add: finish_tree)
  moreover have "\<forall>ok. fst (finish ok files st4) = (files, None) \<and>
                  cells (snd (finish ok files st4)) = cells st \<and>
                  brk (snd (finish ok files st4)) = brk st \<and>
                  allFiles (snd (finish ok files st4)) = allFiles st"
    unfolding st by (simp add: finish_tree)
  ultimately show ?thesis using r p by blast
qed

theorem manifest_check_effect_free_witness:
  "(\<exists>files st.
      buildArchive 4 100 (imageOf [[tarEntry ''sandstorm-manifest'' TypeReg 420 [] [7]]])
        = Inr ((files, None), st) \<and>
      stderr st = [] \<and> manifestName \<in> dom (allFiles st)) \<and>
   (\<exists>files st.
      buildArchive 4 100 (imageOf [[tarEntry ''other'' TypeReg 420 [] [7]]])
        = Inr ((files, None), st) \<and>
      stderr st = [manifestWarning] \<and> manifestName \<notin> dom (allFiles st))"
proof -
  let ?i = "imageOf [[tarEntry ''sandstorm-manifest'' TypeReg 420 [] [7]]]"
  let ?j = "imageOf [[tarEntry ''other'' TypeReg 420 [] [7]]]"
  have "(case buildArchive 4 100 ?i of
           Inl c \<Rightarrow> False
         | Inr ((files, err), st) \<Rightarrow> err = None \<and> allFiles st manifestName \<noteq> None)"
    by code_simp
  then obtain files st where
    i: "buildArchive 4 100 ?i = Inr ((files, None), st)" and "manifestName \<in> dom (allFiles st)"
    by (auto split: sum.splits)
  with manifest_check_effect_free[OF i]
  have 1: "\<exists>files st. buildArchive 4 100 ?i = Inr ((files, None), st) \<and>
             stderr st = [] \<and> manifestName \<in> dom (allFiles st)"
    by auto
  have "(case buildArchive 4 100 ?j of
           Inl c \<Rightarrow> False
         | Inr ((files, err), st) \<Rightarrow> err = None \<and> allFiles st manifestName = None)"
    by code_simp
  then obtain files' st' where
    j: "buildArchive 4 100 ?j = Inr ((files', None), st')" and "manifestName \<notin> dom (allFiles st')"
    by (auto split: sum.splits)
  with manifest_check_effect_free[OF j]
  have 2: "\<exists>files st. buildArchive 4 100 ?j = Inr ((files, None), st) \<and>
             stderr st = [manifestWarning] \<and> manifestName \<notin> dom (allFiles st)"
    by auto
  from 1 2 show ?thesis by (rule conjI)
qed

section \<open>Where the two passes disagree\<close>

text \<open>
  C1. Two layers that both hold the directory \<^verbatim>\<open>a\<close>: pass 1 counts it twice as a
  child of the root, pass 2 creates it once. The conversion succeeds, and the root
  directory, allocated with two slots, ends with one of them assigned.
\<close>

theorem duplicate_path_leaves_unfilled_slot:
  "(case buildArchive 4 100
       (imageOf [[tarEntry ''a'' TypeDir 493 [] []], [tarEntry ''a'' TypeDir 493 [] []]]) of
      Inl c \<Rightarrow> False
    | Inr ((files, err), st) \<Rightarrow>
        err = None \<and> length files = 2 \<and> occupied (cells st) files = 1)"
  by code_simp

text \<open>
  C2. A single regular file \<^verbatim>\<open>x/y/z.txt\<close> with no entry for \<^verbatim>\<open>x\<close> or \<^verbatim>\<open>x/y\<close>:
  pass 1 counts nothing for the root, whose list is allocated empty, and the slot
  that pass 2 asks for, for the directory \<^verbatim>\<open>x\<close>, is outside it.
\<close>

theorem implicit_directory_overflows_root:
  "buildArchive 8 100 (imageOf [[tarEntry ''x/y/z.txt'' TypeReg 420 [] []]])
     = Inl PanicOutOfBounds"
  by (simp add: buildArchive_def getDirSizes_def imageOf_def tarEntry_def initial_def
      NewArchive_def NewArchive_File_def NewDirectory_def alloc_def setWhich_def
      Directory_of_def At_def afterGetParent_def buildEntry_def supportedTypeFlag_def
      countEntry_def sizeAt_def int32_def TypeDir_def TypeReg_def TypeSymlink_def
      Clean_def Dir_def dirname_def Separator_def listWords_def Let_def numeral_nat)


section \<open>Errors that are dropped\<close>

text \<open>
  C9. When \<open>getParent\<close> returns an error, \<open>nextChild\<close> goes on with the struct
  it got, without that error: what it does is \<open>afterGetParent\<close> of that struct. In a
  state of pass 2 (they are \<open>consistent\<close>) the struct is then a fresh one or a
  directory with no list, and \<open>nextChild\<close> ends in a panic: the error of
  \<open>getParent\<close> is never what \<open>nextChild\<close> returns.
\<close>

theorem getParent_error_never_returned:
  assumes g: "getParent depth name st = Inr ((parent, Some e), st1)"
  shows "nextChild (Suc depth) name st = afterGetParent name parent st1 \<and>
         (consistent st \<longrightarrow>
            nextChild (Suc depth) name st = Inl PanicWhich \<or>
            nextChild (Suc depth) name st = Inl PanicOutOfBounds)"
proof -
  from g have n: "nextChild (Suc depth) name st = afterGetParent name parent st1" by simp
  have "nextChild (Suc depth) name st = Inl PanicWhich \<or>
        nextChild (Suc depth) name st = Inl PanicOutOfBounds" if c: "consistent st"
  proof -
    from walk_consistent[OF c, of depth name parent "Some e" st1] g obtain x where
      "parent = Ref x" "which (cells st1 x) = Regular [] \<or> which (cells st1 x) = Directory []"
      by auto
    with afterGetParent_crash[OF this(2), of name] n show ?thesis by simp
  qed
  with n show ?thesis by blast
qed

theorem getParent_error_never_returned_witness:
  "\<exists>parent e st1.
     getParent 3 ''x/y'' (rootOnly [''.'' \<mapsto> 1, ''x'' \<mapsto> 1] 1 0) = Inr ((parent, Some e), st1) \<and>
     nextChild (Suc 3) ''x/y'' (rootOnly [''.'' \<mapsto> 1, ''x'' \<mapsto> 1] 1 0)
       = afterGetParent ''x/y'' parent st1 \<and>
     nextChild (Suc 3) ''x/y'' (rootOnly [''.'' \<mapsto> 1, ''x'' \<mapsto> 1] 1 0) = Inl PanicWhich"
proof -
  let ?st = "rootOnly [''.'' \<mapsto> 1, ''x'' \<mapsto> 1] 1 0"
  have "(case getParent 3 ''x/y'' ?st of
           Inr ((parent, Some e), st1) \<Rightarrow> True
         | _ \<Rightarrow> False)"
    by code_simp
  then obtain parent e st1 where g: "getParent 3 ''x/y'' ?st = Inr ((parent, Some e), st1)"
    by (auto split: sum.splits option.splits)
  have w: "(case nextChild (Suc 3) ''x/y'' ?st of Inl c \<Rightarrow> c \<noteq> PanicOutOfBounds | Inr r \<Rightarrow> True)"
    by code_simp
  note t = getParent_error_never_returned[OF g]
  from t have a: "nextChild (Suc 3) ''x/y'' ?st = afterGetParent ''x/y'' parent st1"
    by (rule conjunct1)
  from t rootOnly_consistent[of "[''.'' \<mapsto> 1, ''x'' \<mapsto> 1]" 1 0]
  have "nextChild (Suc 3) ''x/y'' ?st = Inl PanicWhich \<or>
        nextChild (Suc 3) ''x/y'' ?st = Inl PanicOutOfBounds" by blast
  then have "nextChild (Suc 3) ''x/y'' ?st = Inl PanicWhich"
  proof
    assume "nextChild (Suc 3) ''x/y'' ?st = Inl PanicOutOfBounds"
    with w show ?thesis by simp
  qed
  with g a show ?thesis by blast
qed

text \<open>
  C10. At a regular-file entry whose path is not yet in the name index and for which
  \<open>nextChild\<close> returned a slot: when reading the content fails, the step and the
  loop return that error; when the content was read, the step returns no error and the
  loop goes on whatever \<open>SetRegular\<close> or \<open>SetExecutable\<close> returned, and they
  return an error exactly when the message has no room for the content.
\<close>

theorem store_errors_unchecked:
  assumes reg: "Typeflag hdr = TypeReg"
    and fresh: "allFiles st (Clean (Name hdr)) = None"
    and nc: "nextChild depth (Clean (Name hdr)) st = Inr ((this, None), st1)"
  shows "(\<forall>e. content hdr = Inl e \<longrightarrow>
            (\<exists>st2. buildEntry depth hdr st = Inr (Some e, st2) \<and>
                   buildEntries depth (hdr # rest) st = Inr (Some e, st2))) \<and>
         (\<forall>b. content hdr = Inr b \<longrightarrow>
            (\<exists>err2 st3.
               (if Perm (Mode hdr) AND execBits = 0
                then SetRegular this b (st1\<lparr>allFiles := (allFiles st1)(Clean (Name hdr) \<mapsto> this)\<rparr>)
                else SetExecutable this b (st1\<lparr>allFiles := (allFiles st1)(Clean (Name hdr) \<mapsto> this)\<rparr>))
                 = Inr (err2, st3) \<and>
               (err2 = None \<longleftrightarrow> wordsFor (length b) \<le> room st1) \<and>
               buildEntry depth hdr st = Inr (None, st3) \<and>
               buildEntries depth (hdr # rest) st = buildEntries depth rest st3))"
proof -
  let ?name = "Clean (Name hdr)"
  let ?st2 = "st1\<lparr>allFiles := (allFiles st1)(?name \<mapsto> this)\<rparr>"
  from reg have sup: "supportedTypeFlag hdr" by (simp add: supportedTypeFlag_def)
  from reg Type_distinct have nd: "Typeflag hdr \<noteq> TypeDir" "Typeflag hdr \<noteq> TypeSymlink"
    by auto
  from nextChild_Ref[OF nc] obtain x where x: "this = Ref x" by blast
  have 1: "\<exists>st2. buildEntry depth hdr st = Inr (Some e, st2) \<and>
                   buildEntries depth (hdr # rest) st = Inr (Some e, st2)"
    if "content hdr = Inl e" for e
    using that sup fresh nc reg nd by (simp add: buildEntry_def Let_def)
  have 2: "\<exists>err2 st3.
               (if Perm (Mode hdr) AND execBits = 0
                then SetRegular this b ?st2 else SetExecutable this b ?st2) = Inr (err2, st3) \<and>
               (err2 = None \<longleftrightarrow> wordsFor (length b) \<le> room st1) \<and>
               buildEntry depth hdr st = Inr (None, st3) \<and>
               buildEntries depth (hdr # rest) st = buildEntries depth rest st3"
    if c: "content hdr = Inr b" for b
  proof (cases "Perm (Mode hdr) AND execBits = 0")
    case True
    from setter_total(1)[of x b ?st2] obtain err2 st3 where
      s: "SetRegular (Ref x) b ?st2 = Inr (err2, st3)"
      and e: "err2 = None \<longleftrightarrow> wordsFor (length b) \<le> room st1" by auto
    from s c sup fresh nc reg nd True x
    have "buildEntry depth hdr st = Inr (None, st3)" by (simp add: buildEntry_def Let_def)
    with s e True x show ?thesis by simp
  next
    case False
    from setter_total(2)[of x b ?st2] obtain err2 st3 where
      s: "SetExecutable (Ref x) b ?st2 = Inr (err2, st3)"
      and e: "err2 = None \<longleftrightarrow> wordsFor (length b) \<le> room st1" by auto
    from s c sup fresh nc reg nd False x
    have "buildEntry depth hdr st = Inr (None, st3)" by (simp add: buildEntry_def Let_def)
    with s e False x show ?thesis by simp
  qed
  from 1 2 show ?thesis by blast
qed

theorem store_errors_unchecked_witness:
  "(\<exists>this st1 st3.
      nextChild 2 ''f'' (rootOnly [''.'' \<mapsto> 1] 1 1) = Inr ((this, None), st1) \<and>
      SetRegular this [1, 2, 3, 4, 5, 6, 7, 8, 9] (st1\<lparr>allFiles := (allFiles st1)(''f'' \<mapsto> this)\<rparr>)
        = Inr (Some ErrAlloc, st3) \<and>
      buildEntry 2 (tarEntry ''f'' TypeReg 420 [] [1, 2, 3, 4, 5, 6, 7, 8, 9])
        (rootOnly [''.'' \<mapsto> 1] 1 1) = Inr (None, st3)) \<and>
   (\<exists>st2.
      buildEntries 2 [\<lparr>Name = ''f'', Typeflag = TypeReg, Mode = 420, Linkname = [],
                       content = Inl (ErrIO ''unexpected EOF'')\<rparr>,
                      tarEntry ''g'' TypeReg 420 [] []]
        (rootOnly [''.'' \<mapsto> 2] 2 10) = Inr (Some (ErrIO ''unexpected EOF''), st2)) \<and>
   (case buildArchive 4 12 (imageOf [[tarEntry ''f'' TypeReg 420 [] [1, 2, 3, 4, 5, 6, 7, 8, 9]]]) of
      Inl c \<Rightarrow> False
    | Inr ((files, err), st) \<Rightarrow>
        err = None \<and> fileAt (cells st) files [''f''] = Some \<lparr>fileName = ''f'', which = Regular []\<rparr>)"
proof -
  let ?b = "[1, 2, 3, 4, 5, 6, 7, 8, 9] :: bytes"
  let ?h = "tarEntry ''f'' TypeReg 420 [] ?b"
  let ?e = "\<lparr>Name = ''f'', Typeflag = TypeReg, Mode = 420, Linkname = [],
             content = Inl (ErrIO ''unexpected EOF'')\<rparr>"
  let ?s = "rootOnly [''.'' \<mapsto> 1] 1 1"
  let ?s2 = "rootOnly [''.'' \<mapsto> 2] 2 10"
  have n: "Clean (Name ?h) = ''f''" "Clean (Name ?e) = ''f''"
    by (simp_all add: tarEntry_def Clean_def Separator_def)
  have fl: "Typeflag ?h = TypeReg" "content ?h = Inr ?b" "Perm (Mode ?h) AND execBits = 0"
    "Typeflag ?e = TypeReg" "content ?e = Inl (ErrIO ''unexpected EOF'')"
    by (simp_all add: tarEntry_def Perm_def execBits_def)
  have fr: "allFiles ?s ''f'' = None" "allFiles ?s2 ''f'' = None" by (simp_all add: rootOnly_def)
  have "(case nextChild 2 ''f'' ?s of Inr ((this, None), st1) \<Rightarrow> room st1 = 0 | _ \<Rightarrow> False)"
    by code_simp
  then obtain this st1 where nc: "nextChild 2 ''f'' ?s = Inr ((this, None), st1)"
    and ro: "room st1 = 0"
    by (auto split: sum.splits option.splits)
  have w: "\<not> wordsFor (length ?b) \<le> 0" by (simp add: wordsFor_def)
  have fr1: "allFiles ?s (Clean (Name ?h)) = None" using fr(1) by (simp only: n)
  have nc1: "nextChild 2 (Clean (Name ?h)) ?s = Inr ((this, None), st1)"
    using nc by (simp only: n)
  from store_errors_unchecked[OF fl(1) fr1 nc1, of "[]"] fl ro w n
  obtain err2 st3 where
    "SetRegular this ?b (st1\<lparr>allFiles := (allFiles st1)(''f'' \<mapsto> this)\<rparr>) = Inr (err2, st3)"
    "err2 \<noteq> None" "buildEntry 2 ?h ?s = Inr (None, st3)"
    by auto
  moreover from this(1,2) have "err2 = Some ErrAlloc"
    by (cases this) (auto simp: SetRegular_def Let_def split: option.splits)
  ultimately have 1: "\<exists>this st1 st3.
      nextChild 2 ''f'' ?s = Inr ((this, None), st1) \<and>
      SetRegular this ?b (st1\<lparr>allFiles := (allFiles st1)(''f'' \<mapsto> this)\<rparr>)
        = Inr (Some ErrAlloc, st3) \<and>
      buildEntry 2 ?h ?s = Inr (None, st3)"
    using nc by blast
  have "(case nextChild 2 ''f'' ?s2 of Inr ((this, None), st1) \<Rightarrow> True | _ \<Rightarrow> False)"
    by code_simp
  then obtain this' st1' where nc': "nextChild 2 ''f'' ?s2 = Inr ((this', None), st1')"
    by (auto split: sum.splits option.splits)
  have fr2: "allFiles ?s2 (Clean (Name ?e)) = None" using fr(2) by (simp only: n)
  have nc2: "nextChild 2 (Clean (Name ?e)) ?s2 = Inr ((this', None), st1')"
    using nc' by (simp only: n)
  from store_errors_unchecked[OF fl(4) fr2 nc2,
      of "[tarEntry ''g'' TypeReg 420 [] []]"] fl(5)
  have 2: "\<exists>st2. buildEntries 2 [?e, tarEntry ''g'' TypeReg 420 [] []] ?s2
                  = Inr (Some (ErrIO ''unexpected EOF''), st2)"
    by blast
  have 3: "(case buildArchive 4 12 (imageOf [[?h]]) of
      Inl c \<Rightarrow> False
    | Inr ((files, err), st) \<Rightarrow>
        err = None \<and> fileAt (cells st) files [''f''] = Some \<lparr>fileName = ''f'', which = Regular []\<rparr>)"
    by code_simp
  from 1 2 3 show ?thesis by (intro conjI)
qed

section \<open>A directory that is full\<close>

lemma At_full:
  assumes c: "consistent st" and reg: "allFiles st p = Some (Ref a)"
    and dir: "which (cells st a) = Directory l"
    and full: "sizeAt (dirSizes st) p \<le> 0 \<or> (\<forall>x\<in>set l. cells st x \<noteq> blank)"
  shows "At l (int (length l) - sizeAt (dirSizes st) p) = Inl PanicOutOfBounds"
proof (rule ccontr)
  let ?k = "int (length l) - sizeAt (dirSizes st) p"
  assume "At l ?k \<noteq> Inl PanicOutOfBounds"
  then have k: "0 \<le> ?k" "?k < int (length l)" by (auto simp: At_def split: if_splits)
  then have hi: "nat ?k < length l" and lo: "?k \<le> int (nat ?k)" by simp_all
  from consistentD(8)[OF c reg dir lo hi] have "cells st (l ! nat ?k) = blank" .
  moreover from hi have "l ! nat ?k \<in> set l" by simp
  ultimately show False using full k by auto
qed

lemma sum_caseD:
  "(case x of Inl c \<Rightarrow> False | Inr r \<Rightarrow> P r) \<Longrightarrow> \<exists>r. x = Inr r \<and> P r"
  by (cases x) auto

lemma run_caseD:
  "(case x of Inr (None, st) \<Rightarrow> P st | _ \<Rightarrow> False) \<Longrightarrow> \<exists>st. x = Inr (None, st) \<and> P st"
  by (auto split: sum.splits option.splits)

lemma walk_caseD:
  "(case x of Inr ((Ref a, e), st0) \<Rightarrow> P a e st0 | _ \<Rightarrow> False) \<Longrightarrow>
     \<exists>a e st0. x = Inr ((Ref a, e), st0) \<and> P a e st0"
proof -
  assume a: "(case x of Inr ((Ref a, e), st0) \<Rightarrow> P a e st0 | _ \<Rightarrow> False)"
  then obtain h e st0 where x: "x = Inr ((h, e), st0)" by (cases x) auto
  with a show ?thesis by (cases h) auto
qed

lemma crash_up:
  assumes "nextChild depth (dirname q) st = Inl c" and "allFiles st (dirname q) = None"
  shows "nextChild (Suc (Suc depth)) q st = Inl c"
  using assms by (simp add: Let_def)

lemma crash_chain:
  "nextChild depth ((dirname ^^ k) q) st = Inl c \<Longrightarrow>
   (\<forall>i. 1 \<le> i \<and> i \<le> k \<longrightarrow> allFiles st ((dirname ^^ i) q) = None) \<Longrightarrow>
     nextChild (depth + 2 * k) q st = Inl c"
proof (induction k arbitrary: depth)
  case 0
  then show ?case by simp
next
  case (Suc k)
  from Suc.prems(2)[rule_format, of "Suc k"]
  have u: "allFiles st (dirname ((dirname ^^ k) q)) = None" by simp
  from Suc.prems(1) have "nextChild depth (dirname ((dirname ^^ k) q)) st = Inl c" by simp
  from crash_up[OF this u] have "nextChild (Suc (Suc depth)) ((dirname ^^ k) q) st = Inl c" .
  moreover from Suc.prems(2) have
    "\<forall>i. 1 \<le> i \<and> i \<le> k \<longrightarrow> allFiles st ((dirname ^^ i) q) = None" by simp
  ultimately have "nextChild (Suc (Suc depth) + 2 * k) q st = Inl c" by (rule Suc.IH)
  then show ?case by simp
qed

text \<open>
  C4. A conversion whose pass 2 has gone through the entries \<open>before\<close> comes to a
  supported entry; its path and the first \<open>k\<close> parents of its path are not in the name
  index, and \<open>q\<close> is the \<open>k\<close>-th parent (the path itself when \<open>k = 0\<close>), one of
  the paths \<open>nextChild\<close> is then called with. \<open>getParent\<close> has returned the directory
  that \<open>q\<close> is to be a child of, from the name index or newly made. When the remaining
  count of that directory is used up, or every slot of its list is assigned,
  \<open>nextChild\<close> and with it the conversion end in the panic of the list access, which
  is neither the exit of \<^verbatim>\<open>chkfatal\<close> nor a returned error. And a slot that
  \<open>nextChild\<close> returns is a struct of the list of that directory that was fresh:
  nothing is written outside the list and no slot is used twice.
\<close>

theorem full_directory_is_fatal:
  assumes p1: "getDirSizes dockerImage = Inr sizes" and seek: "seekErr dockerImage = None"
    and n: "0 \<le> int32 (sizeAt sizes ''.'')"
    and sp: "5 + listWords (nat (int32 (sizeAt sizes ''.''))) \<le> space"
    and pos: "stream dockerImage = before @ hdr # rest"
    and run: "buildEntries (Suc (Suc depth) + 2 * k) before
                (rootOnly sizes (nat (int32 (sizeAt sizes ''.'')))
                   (space - 5 - listWords (nat (int32 (sizeAt sizes ''.''))))) = Inr (None, st)"
    and sup: "supportedTypeFlag hdr"
    and new: "\<forall>i. i \<le> k \<longrightarrow> allFiles st ((dirname ^^ i) (Clean (Name hdr))) = None"
    and q: "q = (dirname ^^ k) (Clean (Name hdr))"
    and gp: "getParent (Suc depth) q st = Inr ((Ref a, e), st0)"
    and dir: "which (cells st0 a) = Directory l"
  shows "(sizeAt (dirSizes st0) (dirname q) \<le> 0 \<or> (\<forall>x\<in>set l. cells st0 x \<noteq> blank) \<longrightarrow>
            nextChild (Suc (Suc depth)) q st = Inl PanicOutOfBounds \<and>
            buildArchive (Suc (Suc depth) + 2 * k) space dockerImage = Inl PanicOutOfBounds) \<and>
         (\<forall>h e1 st1. nextChild (Suc (Suc depth)) q st = Inr ((h, e1), st1) \<longrightarrow>
            (\<exists>x\<in>set l. h = Ref x \<and> cells st0 x = blank \<and>
               0 < sizeAt (dirSizes st0) (dirname q)))"
proof -
  let ?name = "Clean (Name hdr)"
  let ?D = "Suc (Suc depth) + 2 * k"
  from buildEntries_consistent[OF rootOnly_consistent run] have c: "consistent st" by simp
  have nx: "nextChild (Suc (Suc depth)) q st = afterGetParent q (Ref a) st0"
    using gp by simp
  have d: "Directory_of (Ref a) st0 = Inr (l, None)" using dir by (simp add: Directory_of_def)
  from walk_consistent[OF c, of "Suc depth" q "Ref a" e st0] gp have
    ok: "e = None \<longrightarrow> consistent st0 \<and> allFiles st0 (dirname q) = Some (Ref a)" and
    bad: "e \<noteq> None \<longrightarrow> which (cells st0 a) = Regular [] \<or> which (cells st0 a) = Directory []"
    by auto
  have 1: "nextChild (Suc (Suc depth)) q st = Inl PanicOutOfBounds"
    if full: "sizeAt (dirSizes st0) (dirname q) \<le> 0 \<or> (\<forall>x\<in>set l. cells st0 x \<noteq> blank)"
  proof (cases "e = None")
    case True
    with ok have c0: "consistent st0" and reg: "allFiles st0 (dirname q) = Some (Ref a)"
      by simp_all
    from At_full[OF c0 reg dir full] nx d show ?thesis
      by (simp add: afterGetParent_def Let_def)
  next
    case False
    with bad dir have "l = []" by auto
    with nx d show ?thesis by (simp add: afterGetParent_def Let_def At_Nil)
  qed
  have 2: "buildArchive ?D space dockerImage = Inl PanicOutOfBounds"
    if full: "sizeAt (dirSizes st0) (dirname q) \<le> 0 \<or> (\<forall>x\<in>set l. cells st0 x \<noteq> blank)"
  proof -
    from 1[OF full] have "nextChild (Suc (Suc depth)) ((dirname ^^ k) ?name) st
        = Inl PanicOutOfBounds" by (simp only: q)
    moreover from new have
      "\<forall>i. 1 \<le> i \<and> i \<le> k \<longrightarrow> allFiles st ((dirname ^^ i) ?name) = None" by simp
    ultimately have "nextChild ?D ?name st = Inl PanicOutOfBounds" by (rule crash_chain)
    moreover from new have "allFiles st ?name = None" by auto
    ultimately have "buildEntries ?D (hdr # rest) st = Inl PanicOutOfBounds"
      using sup by (simp add: buildEntry_def Let_def)
    with run have "buildEntries ?D (before @ hdr # rest)
        (rootOnly sizes (nat (int32 (sizeAt sizes ''.'')))
           (space - 5 - listWords (nat (int32 (sizeAt sizes ''.''))))) = Inl PanicOutOfBounds"
      by (simp add: buildEntries_append)
    with buildArchive_loop[OF p1 seek n sp, of ?D] pos show ?thesis by simp
  qed
  have 3: "\<exists>x\<in>set l. h = Ref x \<and> cells st0 x = blank \<and> 0 < sizeAt (dirSizes st0) (dirname q)"
    if r: "nextChild (Suc (Suc depth)) q st = Inr ((h, e1), st1)" for h e1 st1
  proof -
    from r nx have a: "afterGetParent q (Ref a) st0 = Inr ((h, e1), st1)" by simp
    have "e = None"
    proof (rule ccontr)
      assume "e \<noteq> None"
      with bad have "which (cells st0 a) = Regular [] \<or> which (cells st0 a) = Directory []"
        by simp
      from afterGetParent_crash[OF this, of q] a show False by auto
    qed
    with ok have c0: "consistent st0" and reg: "allFiles st0 (dirname q) = Some (Ref a)"
      by simp_all
    from afterGetParent_consistent[OF c0 reg a] dir obtain x where
      "x \<in> set l" "h = Ref x" "cells st0 x = blank" by auto
    moreover have "0 < sizeAt (dirSizes st0) (dirname q)"
    proof (rule ccontr)
      assume "\<not> 0 < sizeAt (dirSizes st0) (dirname q)"
      then have "sizeAt (dirSizes st0) (dirname q) \<le> 0 \<or> (\<forall>x\<in>set l. cells st0 x \<noteq> blank)"
        by simp
      from 1[OF this] r show False by simp
    qed
    ultimately show ?thesis by blast
  qed
  from 1 2 3 show ?thesis by blast
qed

theorem full_directory_is_fatal_witness:
  "buildArchive 4 100
     (imageOf [[tarEntry ''z'' TypeReg 420 [] [], tarEntry ''x/y'' TypeReg 420 [] []]])
     = Inl PanicOutOfBounds \<and>
   buildArchive 6 100
     (imageOf [[tarEntry ''a'' TypeDir 493 [] [], tarEntry ''a/b/c/d'' TypeReg 420 [] [],
                tarEntry ''a/x'' TypeReg 420 [] []]])
     = Inl PanicOutOfBounds"
proof -
  let ?z = "tarEntry ''z'' TypeReg 420 [] []"
  let ?xy = "tarEntry ''x/y'' TypeReg 420 [] []"
  let ?i = "imageOf [[?z, ?xy]]"
  have "(case getDirSizes ?i of
           Inl c \<Rightarrow> False
         | Inr sizes \<Rightarrow>
             0 \<le> int32 (sizeAt sizes ''.'') \<and>
             5 + listWords (nat (int32 (sizeAt sizes ''.''))) \<le> 100 \<and>
             (case buildEntries (Suc (Suc 0) + 2 * 1) [?z]
                     (rootOnly sizes (nat (int32 (sizeAt sizes ''.'')))
                        (100 - 5 - listWords (nat (int32 (sizeAt sizes ''.''))))) of
                Inr (None, st) \<Rightarrow>
                  allFiles st ''.'' = Some (Ref 0) \<and> which (cells st 0) = Directory [1] \<and>
                  fileName (cells st 1) = ''z'' \<and> allFiles st ''x/y'' = None \<and>
                  allFiles st ''x'' = None
              | _ \<Rightarrow> False))"
    by code_simp
  then obtain sizes st where
    p1: "getDirSizes ?i = Inr sizes"
    and n: "0 \<le> int32 (sizeAt sizes ''.'')"
    and sp: "5 + listWords (nat (int32 (sizeAt sizes ''.''))) \<le> 100"
    and run: "buildEntries (Suc (Suc 0) + 2 * 1) [?z]
                (rootOnly sizes (nat (int32 (sizeAt sizes ''.'')))
                   (100 - 5 - listWords (nat (int32 (sizeAt sizes ''.''))))) = Inr (None, st)"
    and r: "allFiles st ''.'' = Some (Ref 0)" and d: "which (cells st 0) = Directory [1]"
    and nm: "fileName (cells st 1) = ''z''" and f: "allFiles st ''x/y'' = None"
      "allFiles st ''x'' = None"
    by (auto split: sum.splits option.splits)
  have seek: "seekErr ?i = None" by (simp add: imageOf_def)
  have pos: "stream ?i = [?z] @ ?xy # []" by (simp add: stream_def imageOf_def)
  have cl: "Clean (Name ?xy) = ''x/y''" by (simp add: tarEntry_def Clean_def Separator_def)
  have dn: "dirname ''x/y'' = ''x''" "dirname ''x'' = ''.''"
    by (simp_all add: dirname_def Dir_def Clean_def Separator_def)
  have su: "supportedTypeFlag ?xy" by (simp add: supportedTypeFlag_def tarEntry_def)
  have new: "\<forall>i. i \<le> 1 \<longrightarrow> allFiles st ((dirname ^^ i) (Clean (Name ?xy))) = None"
  proof (intro allI impI)
    fix i :: nat assume "i \<le> 1"
    then have "i = 0 \<or> i = 1" by auto
    then show "allFiles st ((dirname ^^ i) (Clean (Name ?xy))) = None"
      using f by (auto simp: cl dn)
  qed
  have q: "''x'' = (dirname ^^ 1) (Clean (Name ?xy))" by (simp add: cl dn)
  have gp: "getParent (Suc 0) ''x'' st = Inr ((Ref 0, None), st)" using r by (simp add: dn)
  from nm have full: "\<forall>x\<in>set [1]. cells st x \<noteq> blank" by (auto simp: blank_def)
  from full_directory_is_fatal[OF p1 seek n sp pos run su new q gp d] full
  have "buildArchive (Suc (Suc 0) + 2 * 1) 100 ?i = Inl PanicOutOfBounds" by blast
  then have 1: "buildArchive 4 100 ?i = Inl PanicOutOfBounds" by (simp add: numeral_eq_Suc)
  let ?a = "tarEntry ''a'' TypeDir 493 [] []"
  let ?d = "tarEntry ''a/b/c/d'' TypeReg 420 [] []"
  let ?x = "tarEntry ''a/x'' TypeReg 420 [] []"
  let ?j = "imageOf [[?a, ?d, ?x]]"
  have "(case getDirSizes ?j of
           Inl c \<Rightarrow> False
         | Inr sizes \<Rightarrow>
             0 \<le> int32 (sizeAt sizes ''.'') \<and>
             5 + listWords (nat (int32 (sizeAt sizes ''.''))) \<le> 100 \<and>
             (case buildEntries (Suc (Suc 2) + 2 * 1) [?a]
                     (rootOnly sizes (nat (int32 (sizeAt sizes ''.'')))
                        (100 - 5 - listWords (nat (int32 (sizeAt sizes ''.''))))) of
                Inr (None, st) \<Rightarrow>
                  allFiles st ''a/b/c/d'' = None \<and> allFiles st ''a/b/c'' = None \<and>
                  (case getParent (Suc 2) ''a/b/c'' st of
                     Inr ((Ref a, e), st0) \<Rightarrow>
                       which (cells st0 a) = Directory [] \<and> fileName (cells st0 a) = ''b''
                   | _ \<Rightarrow> False)
              | _ \<Rightarrow> False))"
    by code_simp
  from sum_caseD[OF this] obtain sizes' where
    p1': "getDirSizes ?j = Inr sizes'"
    and n': "0 \<le> int32 (sizeAt sizes' ''.'')"
    and sp': "5 + listWords (nat (int32 (sizeAt sizes' ''.''))) \<le> 100"
    and e2: "(case buildEntries (Suc (Suc 2) + 2 * 1) [?a]
                     (rootOnly sizes' (nat (int32 (sizeAt sizes' ''.'')))
                        (100 - 5 - listWords (nat (int32 (sizeAt sizes' ''.''))))) of
                Inr (None, st) \<Rightarrow>
                  allFiles st ''a/b/c/d'' = None \<and> allFiles st ''a/b/c'' = None \<and>
                  (case getParent (Suc 2) ''a/b/c'' st of
                     Inr ((Ref a, e), st0) \<Rightarrow>
                       which (cells st0 a) = Directory [] \<and> fileName (cells st0 a) = ''b''
                   | _ \<Rightarrow> False)
              | _ \<Rightarrow> False)"
    by blast
  from run_caseD[OF e2] obtain st' where
    run': "buildEntries (Suc (Suc 2) + 2 * 1) [?a]
                (rootOnly sizes' (nat (int32 (sizeAt sizes' ''.'')))
                   (100 - 5 - listWords (nat (int32 (sizeAt sizes' ''.''))))) = Inr (None, st')"
    and f': "allFiles st' ''a/b/c/d'' = None" "allFiles st' ''a/b/c'' = None"
    and e3: "(case getParent (Suc 2) ''a/b/c'' st' of
                     Inr ((Ref a, e), st0) \<Rightarrow>
                       which (cells st0 a) = Directory [] \<and> fileName (cells st0 a) = ''b''
                   | _ \<Rightarrow> False)"
    by blast
  from walk_caseD[OF e3] obtain a e st0 where
    gp': "getParent (Suc 2) ''a/b/c'' st' = Inr ((Ref a, e), st0)"
    and d': "which (cells st0 a) = Directory []"
    by blast
  have seek': "seekErr ?j = None" by (simp add: imageOf_def)
  have pos': "stream ?j = [?a] @ ?d # [?x]" by (simp add: stream_def imageOf_def)
  have cl': "Clean (Name ?d) = ''a/b/c/d''" by (simp add: tarEntry_def Clean_def Separator_def)
  have dn': "dirname ''a/b/c/d'' = ''a/b/c''"
    by (simp add: dirname_def Dir_def Clean_def Separator_def)
  have su': "supportedTypeFlag ?d" by (simp add: supportedTypeFlag_def tarEntry_def)
  have new': "\<forall>i. i \<le> 1 \<longrightarrow> allFiles st' ((dirname ^^ i) (Clean (Name ?d))) = None"
  proof (intro allI impI)
    fix i :: nat assume "i \<le> 1"
    then have "i = 0 \<or> i = 1" by auto
    then show "allFiles st' ((dirname ^^ i) (Clean (Name ?d))) = None"
      using f' by (auto simp: cl' dn')
  qed
  have q': "''a/b/c'' = (dirname ^^ 1) (Clean (Name ?d))" by (simp add: cl' dn')
  have full': "\<forall>x\<in>set []. cells st0 x \<noteq> blank" by simp
  from full_directory_is_fatal[OF p1' seek' n' sp' pos' run' su' new' q' gp' d'] full'
  have "buildArchive (Suc (Suc 2) + 2 * 1) 100 ?j = Inl PanicOutOfBounds" by blast
  then have 2: "buildArchive 6 100 ?j = Inl PanicOutOfBounds" by (simp add: numeral_eq_Suc)
  from 1 2 show ?thesis by (intro conjI)
qed

section \<open>What is stored for an entry\<close>




end
